theory Spec2Isabelle
  imports Complex_Main "HOL-Library.Word"
begin

section \<open>JavaScript numbers and values\<close>

text \<open>
  The values held by the model's output array and stored in the detection records are
  IEEE numbers. Every finite one is a rational, so a number is \<open>NaN\<close>, an infinity or a
  rational. Reading an array out of range gives \<open>undefined\<close>, which is \<open>None\<close> here;
  \<open>to_number\<close> is the conversion the comparison operators and \<open>Math.min\<close> apply to
  their operands (\<open>undefined\<close> becomes \<open>NaN\<close>).
\<close>

datatype jsnum = NaN | NegInf | Fin rat | PosInf

type_synonym jsval = "jsnum option"

fun to_number :: "jsval \<Rightarrow> jsnum" where
  "to_number None = NaN"
| "to_number (Some v) = v"

text \<open>\<open>a < b\<close> on numbers: false as soon as one operand is \<open>NaN\<close>.\<close>

fun js_lt :: "jsnum \<Rightarrow> jsnum \<Rightarrow> bool" where
  "js_lt NaN b = False"
| "js_lt a NaN = False"
| "js_lt (Fin a) (Fin b) = (a < b)"
| "js_lt NegInf NegInf = False"
| "js_lt NegInf b = True"
| "js_lt PosInf b = False"
| "js_lt (Fin a) PosInf = True"
| "js_lt (Fin a) NegInf = False"

text \<open>\<open>a > b\<close> is \<open>b < a\<close> with the operands swapped.\<close>

definition js_gt :: "jsnum \<Rightarrow> jsnum \<Rightarrow> bool" where
  "js_gt a b = js_lt b a"

text \<open>\<open>a <= b\<close> on numbers.\<close>

definition js_le :: "jsnum \<Rightarrow> jsnum \<Rightarrow> bool" where
  "js_le a b = (a \<noteq> NaN \<and> b \<noteq> NaN \<and> \<not> js_lt b a)"

text \<open>\<open>Math.min(a, b)\<close>: \<open>NaN\<close> if either argument is, the smaller one otherwise.\<close>

definition Math_min :: "jsnum \<Rightarrow> jsnum \<Rightarrow> jsnum" where
  "Math_min a b = (if a = NaN \<or> b = NaN then NaN else if js_lt a b then a else b)"

text \<open>\<open>xs[i]\<close>: the element, or \<open>undefined\<close> out of range.\<close>

definition array_get :: "'a list \<Rightarrow> nat \<Rightarrow> 'a option" where
  "array_get xs i = (if i < length xs then Some (xs ! i) else None)"

subsection \<open>Rounding to a binary floating-point format\<close>

text \<open>
  \<open>ilog2 q\<close> is the binary exponent of a positive rational: the \<open>e\<close> with
  \<open>2 ^ e \<le> q < 2 ^ (e + 1)\<close>. \<open>round_even\<close> rounds to the nearest integer, a tie to the
  even one. \<open>fl_round p\<close> rounds a rational to the nearest number with a \<open>p\<close>-bit
  significand, as IEEE round-to-nearest-even does; \<open>fl64\<close> is the rounding of every
  arithmetic operation on numbers and \<open>fl32\<close> the rounding of a store into a
  \<open>Float32Array\<close>. The exponent range is not bounded: the numbers rounded here are bytes
  divided by 255 and random numbers below 1 times 100 or 10000, all far from overflow and
  underflow in both formats.
\<close>

function ilog2 :: "rat \<Rightarrow> int" where
  "ilog2 q = (if q \<le> 0 then 0
              else if q < 1 then ilog2 (2 * q) - 1
              else if 2 \<le> q then ilog2 (q / 2) + 1
              else 0)"
  by pat_completeness auto
termination
proof (relation "measure (\<lambda>q. 2 * nat \<lceil>1 / q\<rceil> + nat \<lfloor>q\<rfloor>)", goal_cases)
  case 1
  show ?case by (rule wf_measure)
next
  case (2 q)
  then have q: "0 < q" "q < 1" by simp_all
  have "1 < 1 / q" using q by simp
  then have "1 < \<lceil>1 / q\<rceil>" by (simp add: less_ceiling_iff)
  then have c2: "2 \<le> \<lceil>1 / q\<rceil>" by simp
  have "1 / (2 * q) = (1 / q) / 2" by simp
  also have "\<dots> \<le> of_int \<lceil>1 / q\<rceil> / 2" by (simp add: divide_right_mono)
  also have "\<dots> \<le> of_int (\<lceil>1 / q\<rceil> - 1)" using c2 by simp
  finally have "1 / (2 * q) \<le> of_int (\<lceil>1 / q\<rceil> - 1)" .
  then have a: "\<lceil>1 / (2 * q)\<rceil> \<le> \<lceil>1 / q\<rceil> - 1" by (rule ceiling_le)
  have b: "\<lfloor>2 * q\<rfloor> \<le> 1" using q by (simp add: floor_le_iff)
  have "2 * nat \<lceil>1 / (2 * q)\<rceil> + nat \<lfloor>2 * q\<rfloor> < 2 * nat \<lceil>1 / q\<rceil> + nat \<lfloor>q\<rfloor>"
    using a b c2 by linarith
  then show ?case unfolding in_measure .
next
  case (3 q)
  then have q: "2 \<le> q" by simp
  have a: "\<lceil>1 / (q / 2)\<rceil> = 1" using q by (simp add: ceiling_eq_iff)
  have b: "\<lceil>1 / q\<rceil> = 1" using q by (simp add: ceiling_eq_iff)
  have "of_int \<lfloor>q / 2\<rfloor> \<le> q / 2" by (rule of_int_floor_le)
  also have "\<dots> \<le> q - 1" using q by simp
  also have "\<dots> < of_int \<lfloor>q\<rfloor>" by linarith
  finally have c: "\<lfloor>q / 2\<rfloor> < \<lfloor>q\<rfloor>" by simp
  have d: "0 < \<lfloor>q\<rfloor>" using q by (simp add: less_floor_iff)
  have "2 * nat \<lceil>1 / (q / 2)\<rceil> + nat \<lfloor>q / 2\<rfloor> < 2 * nat \<lceil>1 / q\<rceil> + nat \<lfloor>q\<rfloor>"
    unfolding a b using c d by linarith
  then show ?case unfolding in_measure .
qed

declare ilog2.simps [simp del]

definition round_even :: "rat \<Rightarrow> int" where
  "round_even z =
     (let f = \<lfloor>z\<rfloor>; d = z - of_int f
      in if d < 1 / 2 then f else if 1 / 2 < d then f + 1 else if even f then f else f + 1)"

definition fl_round :: "nat \<Rightarrow> rat \<Rightarrow> rat" where
  "fl_round p q =
     (if q = 0 then 0
      else let e = ilog2 \<bar>q\<bar>; s = int p - 1 - e
           in sgn q * of_int (round_even (\<bar>q\<bar> * 2 powi s)) / 2 powi s)"

definition fl64 :: "rat \<Rightarrow> rat" where
  "fl64 = fl_round 53"

definition fl32 :: "rat \<Rightarrow> rat" where
  "fl32 = fl_round 24"

text \<open>\<open>Math.floor\<close> of a finite number.\<close>

definition Math_floor :: "rat \<Rightarrow> int" where
  "Math_floor q = \<lfloor>q\<rfloor>"

subsection \<open>Integers as decimal strings\<close>

text \<open>
  A template literal converts an integer-valued number to its decimal digits (for
  magnitudes below \<open>10 ^ 21\<close>, the only ones that occur here).
\<close>

definition digit_char :: "nat \<Rightarrow> char" where
  "digit_char n = ''0123456789'' ! n"

fun nat_digits :: "nat \<Rightarrow> string" where
  "nat_digits n = (if n < 10 then [digit_char n] else nat_digits (n div 10) @ [digit_char (n mod 10)])"

declare nat_digits.simps [simp del]

definition Number_toString :: "int \<Rightarrow> string" where
  "Number_toString i = (if i < 0 then CHR ''-'' # nat_digits (nat (- i)) else nat_digits (nat i))"

section \<open>Output decoding: \<open>processOutput\<close>\<close>

text \<open>
  A detection record as \<open>processOutput\<close> pushes it: \<open>{confidence, bbox: {x1, y1, x2, y2},
  text}\<close>. The numeric fields hold what was read from the array, so they are values.
\<close>

record bbox =
  x1 :: jsval
  y1 :: jsval
  x2 :: jsval
  y2 :: jsval

record plate =
  confidence :: jsval
  bbox :: bbox
  plate_text :: string

definition CONFIDENCE_THRESHOLD :: jsnum where
  "CONFIDENCE_THRESHOLD = Fin (1 / 2)"

text \<open>
  \<open>Math.random()\<close> is a global generator. It is modelled by the sequence \<open>rs\<close> of the
  numbers it will return and a cursor into it, which every call advances.
\<close>

definition Math_random :: "(nat \<Rightarrow> rat) \<Rightarrow> nat \<Rightarrow> rat \<times> nat" where
  "Math_random rs k = (rs k, Suc k)"

text \<open>
  The template literal
  \<^verbatim>\<open>KA${Math.floor(Math.random() * 100)}AB${Math.floor(Math.random() * 10000)}\<close>,
  evaluated left to right; each product is rounded to a double.
\<close>

definition random_text :: "(nat \<Rightarrow> rat) \<Rightarrow> nat \<Rightarrow> string \<times> nat" where
  "random_text rs k =
     (let (r1, k1) = Math_random rs k;
          n = Math_floor (fl64 (r1 * 100));
          (r2, k2) = Math_random rs k1;
          m = Math_floor (fl64 (r2 * 10000))
      in (''KA'' @ Number_toString n @ ''AB'' @ Number_toString m, k2))"

text \<open>
  The body of the \<open>for\<close> loop at index \<open>i\<close>; the state is the list \<open>plates\<close> built so
  far and the cursor of the random generator.
\<close>

definition processOutput_body ::
  "jsnum list \<Rightarrow> (nat \<Rightarrow> rat) \<Rightarrow> nat \<Rightarrow> plate list \<times> nat \<Rightarrow> plate list \<times> nat" where
  "processOutput_body output rs i st =
     (let (plates, k) = st;
          baseIndex = 1 + i * 6;
          conf = array_get output (baseIndex + 4)
      in if js_gt (to_number conf) CONFIDENCE_THRESHOLD then
           let bx1 = array_get output baseIndex;
               by1 = array_get output (baseIndex + 1);
               bx2 = array_get output (baseIndex + 2);
               by2 = array_get output (baseIndex + 3);
               (t, k') = random_text rs k
           in (plates @ [\<lparr>confidence = conf,
                           bbox = \<lparr>x1 = bx1, y1 = by1, x2 = bx2, y2 = by2\<rparr>,
                           plate_text = t\<rparr>], k')
         else (plates, k))"

text \<open>
  \<^verbatim>\<open>for (let i = 0; i < numDetections; i++) { ... }\<close>. For an arbitrary bound the loop
  need not end (\<open>i < Infinity\<close> holds for ever), so it is a partial function: \<open>None\<close>
  is a loop that never returns.
\<close>

partial_function (option) processOutput_loop ::
  "jsnum list \<Rightarrow> jsnum \<Rightarrow> (nat \<Rightarrow> rat) \<Rightarrow> nat \<Rightarrow> plate list \<times> nat \<Rightarrow> (plate list \<times> nat) option"
where
  "processOutput_loop output numDetections rs i st =
     (if js_lt (Fin (of_nat i)) numDetections
      then processOutput_loop output numDetections rs (i + 1) (processOutput_body output rs i st)
      else Some st)"

declare processOutput_loop.simps [code]

definition processOutput ::
  "jsnum list \<Rightarrow> (nat \<Rightarrow> rat) \<Rightarrow> nat \<Rightarrow> (plate list \<times> nat) option" where
  "processOutput output rs k =
     (let numDetections = Math_min (to_number (array_get output 0)) (Fin 10)
      in processOutput_loop output numDetections rs 0 ([], k))"

section \<open>The caller: \<open>processImage\<close>\<close>

text \<open>
  A thrown value is an error with its message. The two \<open>TypeError\<close>s that the engine
  itself raises (indexing \<open>undefined\<close>, reducing an empty array) have engine-specific
  messages, so they are parameters.
\<close>

datatype js_error = Error string

fun message :: "js_error \<Rightarrow> string" where
  "message (Error m) = m"

record engine =
  index_undefined_error :: js_error
  reduce_empty_error :: js_error

text \<open>
  The part of the screen that \<open>processImage\<close> touches: the three state variables it
  sets, the alerts shown (title and text) and the navigations made (route, plate text,
  state code).
\<close>

record screen =
  isProcessing :: bool
  licensePlate :: string
  stateCode :: string
  alerts :: "(string \<times> string) list"
  navigations :: "(string \<times> string \<times> string) list"

text \<open>The callback of \<open>reduce\<close>: \<open>(prev.confidence > current.confidence) ? prev : current\<close>.\<close>

definition better :: "plate \<Rightarrow> plate \<Rightarrow> plate" where
  "better prev current =
     (if js_gt (to_number (confidence prev)) (to_number (confidence current)) then prev else current)"

text \<open>
  \<open>xs.reduce(f)\<close> without an initial value: the first element starts the accumulator;
  on an empty array it throws.
\<close>

definition Array_reduce :: "('a \<Rightarrow> 'a \<Rightarrow> 'a) \<Rightarrow> 'a list \<Rightarrow> 'a option" where
  "Array_reduce f xs = (case xs of [] \<Rightarrow> None | x # rest \<Rightarrow> Some (foldl f x rest))"

definition bestPlate_of :: "plate list \<Rightarrow> plate option" where
  "bestPlate_of plates = Array_reduce better plates"

text \<open>The characters that \<open>\s\<close> matches among the 8-bit characters of a \<open>string\<close>.\<close>

definition is_space :: "char \<Rightarrow> bool" where
  "is_space c = (c = CHR '' '' \<or> c = CHR 0x09 \<or> c = CHR 0x0A \<or> c = CHR 0x0B \<or> c = CHR 0x0C
                 \<or> c = CHR 0x0D \<or> c = CHR 0xA0)"

text \<open>The \<open>catch\<close> block and the \<open>finally\<close> block.\<close>

definition catch_block :: "js_error \<Rightarrow> screen \<Rightarrow> screen" where
  "catch_block e s =
     s\<lparr>alerts := alerts s @
         [(''Processing Failed'',
           if message e = [] then ''Could not detect license plate. Try again or enter manually.''
           else message e)]\<rparr>"

definition finally_block :: "screen \<Rightarrow> screen" where
  "finally_block s = s\<lparr>isProcessing := False\<rparr>"

text \<open>
  \<open>processImage\<close>, given what \<open>await runInferenceOnImage(imageUri)\<close> produced: an
  exception or the list of output arrays. The result is the screen afterwards and the
  cursor of the random generator; \<open>None\<close> if the decoding loop does not return.
\<close>

definition processImage ::
  "engine \<Rightarrow> js_error + jsnum list list \<Rightarrow> (nat \<Rightarrow> rat) \<Rightarrow> nat \<Rightarrow> screen \<Rightarrow> (screen \<times> nat) option" where
  "processImage eng inference rs k s =
     (case inference of
        Inl e \<Rightarrow> Some (finally_block (catch_block e s), k)
      | Inr outputs \<Rightarrow>
          (case outputs of
             [] \<Rightarrow> Some (finally_block (catch_block (index_undefined_error eng) s), k)
           | output # _ \<Rightarrow>
               (case processOutput output rs k of
                  None \<Rightarrow> None
                | Some (plates, k') \<Rightarrow>
                    if length plates = 0
                    then Some (finally_block (catch_block (Error ''No license plates detected'') s), k')
                    else (case bestPlate_of plates of
                            None \<Rightarrow> Some (finally_block (catch_block (reduce_empty_error eng) s), k')
                          | Some bestPlate \<Rightarrow>
                              let plateText = filter (\<lambda>c. \<not> is_space c) (plate_text bestPlate);
                                  detectedStateCode = take 2 plateText
                              in Some (finally_block
                                         (s\<lparr>licensePlate := plateText,
                                            stateCode := detectedStateCode,
                                            navigations := navigations s @
                                              [(''AddCar'', plateText, detectedStateCode)]\<rparr>), k')))))"

section \<open>Image preprocessing\<close>

text \<open>
  A decoded image \<open>{width, height, data}\<close>; \<open>data\<close> is a \<open>Uint8Array\<close> of four bytes
  (red, green, blue, alpha) per pixel, row by row.
\<close>

record image =
  width :: nat
  height :: nat
  data :: "8 word list"

text \<open>
  A store into a \<open>Uint8Array\<close> converts the value to a byte; \<open>undefined\<close> (a read out of
  range) becomes 0. A store at an index out of range is ignored, as \<open>xs[i := v]\<close> is.
\<close>

definition to_uint8 :: "8 word option \<Rightarrow> 8 word" where
  "to_uint8 v = (case v of None \<Rightarrow> 0 | Some b \<Rightarrow> b)"

text \<open>The four assignments that copy R, G, B, A.\<close>

definition copy_pixel :: "8 word list \<Rightarrow> nat \<Rightarrow> nat \<Rightarrow> 8 word list \<Rightarrow> 8 word list" where
  "copy_pixel oldData srcIdx dstIdx newData =
     newData[dstIdx + 0 := to_uint8 (array_get oldData (srcIdx + 0)),
             dstIdx + 1 := to_uint8 (array_get oldData (srcIdx + 1)),
             dstIdx + 2 := to_uint8 (array_get oldData (srcIdx + 2)),
             dstIdx + 3 := to_uint8 (array_get oldData (srcIdx + 3))]"

text \<open>
  \<open>Math.floor(a * b / c)\<close> on indices and dimensions. The operands are non-negative
  integers, the product is below \<open>2 ^ 53\<close> for every image and typed array an engine can
  hold, and then the floor of the rounded quotient is the integer quotient
  (\<open>src_coord_double\<close> below), so the source index is computed with \<open>div\<close>.
\<close>

definition src_coord :: "nat \<Rightarrow> nat \<Rightarrow> nat \<Rightarrow> nat" where
  "src_coord d oldDim newDim = d * oldDim div newDim"

text \<open>The body of the inner loop (over \<open>x\<close>) and of the outer loop (over \<open>y\<close>).\<close>

definition resize_pixel ::
  "nat \<Rightarrow> 8 word list \<Rightarrow> nat \<Rightarrow> nat \<Rightarrow> nat \<Rightarrow> nat \<Rightarrow> 8 word list \<Rightarrow> 8 word list" where
  "resize_pixel oldW oldData newW srcY y x newData =
     (let srcX = src_coord x oldW newW;
          srcIdx = (srcY * oldW + srcX) * 4;
          dstIdx = (y * newW + x) * 4
      in copy_pixel oldData srcIdx dstIdx newData)"

definition resize_row ::
  "nat \<Rightarrow> nat \<Rightarrow> 8 word list \<Rightarrow> nat \<Rightarrow> nat \<Rightarrow> nat \<Rightarrow> 8 word list \<Rightarrow> 8 word list" where
  "resize_row oldW oldH oldData newW newH y newData =
     (let srcY = src_coord y oldH newH
      in fold (resize_pixel oldW oldData newW srcY y) [0..<newW] newData)"

definition resizeNearestNeighbor :: "image \<Rightarrow> nat \<Rightarrow> nat \<Rightarrow> image" where
  "resizeNearestNeighbor img newW newH =
     (let oldW = width img; oldH = height img; oldData = data img;
          newData = replicate (newW * newH * 4) 0
      in \<lparr>width = newW, height = newH,
          data = fold (resize_row oldW oldH oldData newW newH) [0..<newH] newData\<rparr>)"

text \<open>
  \<open>rgba[j] / 255.0\<close> stored into a \<open>Float32Array\<close>: the quotient is rounded to a double
  and the store rounds it to single precision. \<open>undefined / 255.0\<close> is \<open>NaN\<close>.
\<close>

definition normalise :: "8 word option \<Rightarrow> jsnum" where
  "normalise v = (case v of None \<Rightarrow> NaN | Some b \<Rightarrow> Fin (fl32 (fl64 (of_nat (unat b) / 255))))"

definition tensor_pixel :: "8 word list \<Rightarrow> nat \<Rightarrow> jsnum list \<Rightarrow> jsnum list" where
  "tensor_pixel rgba i tensor =
     tensor[i * 3 + 0 := normalise (array_get rgba (i * 4 + 0)),
            i * 3 + 1 := normalise (array_get rgba (i * 4 + 1)),
            i * 3 + 2 := normalise (array_get rgba (i * 4 + 2))]"

text \<open>
  \<open>base64.replace(/^data:image\/\w+;base64,/, '')\<close>. The pattern is anchored at the
  start; \<open>\w+\<close> is followed by \<open>;\<close>, which is not a word character, so the only run of
  word characters that can match is the longest one.
\<close>

definition is_word_char :: "char \<Rightarrow> bool" where
  "is_word_char c =
     (let n = (of_char c :: nat)
      in (48 \<le> n \<and> n \<le> 57) \<or> (65 \<le> n \<and> n \<le> 90) \<or> (97 \<le> n \<and> n \<le> 122) \<or> n = 95)"

definition match_literal :: "string \<Rightarrow> string \<Rightarrow> string option" where
  "match_literal lit s = (if take (length lit) s = lit then Some (drop (length lit) s) else None)"

definition strip_data_uri :: "string \<Rightarrow> string" where
  "strip_data_uri s =
     (case match_literal ''data:image/'' s of
        None \<Rightarrow> s
      | Some r1 \<Rightarrow>
          if takeWhile is_word_char r1 = [] then s
          else (case match_literal '';base64,'' (dropWhile is_word_char r1) of
                  None \<Rightarrow> s
                | Some r2 \<Rightarrow> r2))"

text \<open>
  \<open>base64ToTensor\<close>. The base64 decoder \<open>Buffer.from(b64, 'base64')\<close> and the JPEG
  decoder \<open>jpeg.decode\<close> belong to libraries, so they are parameters; the JPEG decoder
  throws on bytes that are not a JPEG image.
\<close>

definition base64ToTensor ::
  "(string \<Rightarrow> 8 word list) \<Rightarrow> (8 word list \<Rightarrow> js_error + image) \<Rightarrow>
   string \<Rightarrow> nat \<Rightarrow> nat \<Rightarrow> js_error + jsnum list" where
  "base64ToTensor Buffer_from jpeg_decode base64 targetW targetH =
     (let b64 = strip_data_uri base64;
          imageBuffer = Buffer_from b64
      in case jpeg_decode imageBuffer of
           Inl e \<Rightarrow> Inl e
         | Inr raw \<Rightarrow>
             let resized = resizeNearestNeighbor raw targetW targetH;
                 rgba = data resized;
                 tensor = replicate (targetW * targetH * 3) (Fin 0)
             in Inr (fold (tensor_pixel rgba) [0..<targetW * targetH] tensor))"

section \<open>Notions used to state the properties\<close>

text \<open>The number of iterations of a loop \<open>for (i = 0; i < n; i++)\<close> with a finite bound.\<close>

definition loop_count :: "jsnum \<Rightarrow> nat" where
  "loop_count n = (case n of Fin q \<Rightarrow> nat \<lceil>q\<rceil> | _ \<Rightarrow> 0)"

text \<open>The bound \<open>numDetections\<close> that \<open>processOutput\<close> computes.\<close>

definition numDetections_of :: "jsnum list \<Rightarrow> jsnum" where
  "numDetections_of output = Math_min (to_number (array_get output 0)) (Fin 10)"

text \<open>The test of the loop body on detection \<open>i\<close>, and the numbers it reads for it.\<close>

definition above_threshold :: "jsnum list \<Rightarrow> nat \<Rightarrow> bool" where
  "above_threshold output i =
     js_gt (to_number (array_get output (1 + i * 6 + 4))) CONFIDENCE_THRESHOLD"

definition detection_at :: "jsnum list \<Rightarrow> nat \<Rightarrow> jsval \<times> bbox" where
  "detection_at output i =
     (array_get output (1 + i * 6 + 4),
      \<lparr>x1 = array_get output (1 + i * 6), y1 = array_get output (1 + i * 6 + 1),
       x2 = array_get output (1 + i * 6 + 2), y2 = array_get output (1 + i * 6 + 3)\<rparr>)"

text \<open>The part of a record that comes from the array.\<close>

definition candidate :: "plate \<Rightarrow> jsval \<times> bbox" where
  "candidate p = (confidence p, bbox p)"

text \<open>The texts of \<open>m\<close> successive records when the generator is at cursor \<open>k\<close>.\<close>

fun random_texts :: "(nat \<Rightarrow> rat) \<Rightarrow> nat \<Rightarrow> nat \<Rightarrow> string list" where
  "random_texts rs k 0 = []"
| "random_texts rs k (Suc m) = fst (random_text rs k) # random_texts rs (Suc (Suc k)) m"

text \<open>The confidence of a record as the comparison of \<open>reduce\<close>'s callback sees it.\<close>

definition conf_num :: "plate \<Rightarrow> jsnum" where
  "conf_num p = to_number (confidence p)"

text \<open>
  Index \<open>k\<close> holds a highest confidence of the list (no record has a greater one) and is
  the last index that does (every later record has a smaller one).
\<close>

definition last_highest :: "plate list \<Rightarrow> nat \<Rightarrow> bool" where
  "last_highest ps k \<longleftrightarrow>
     k < length ps
     \<and> (\<forall>j<length ps. \<not> js_gt (conf_num (ps ! j)) (conf_num (ps ! k)))
     \<and> (\<forall>j<length ps. k < j \<longrightarrow> js_gt (conf_num (ps ! k)) (conf_num (ps ! j)))"

text \<open>Two candidate records with the same confidence.\<close>

definition plateA :: plate where
  "plateA = \<lparr>confidence = Some (Fin (9 / 10)),
             bbox = \<lparr>x1 = Some (Fin 0), y1 = Some (Fin 0), x2 = Some (Fin 1), y2 = Some (Fin 1)\<rparr>,
             plate_text = ''KA1AB1''\<rparr>"

definition plateB :: plate where
  "plateB = \<lparr>confidence = Some (Fin (9 / 10)),
             bbox = \<lparr>x1 = Some (Fin 2), y1 = Some (Fin 2), x2 = Some (Fin 3), y2 = Some (Fin 3)\<rparr>,
             plate_text = ''KA2AB2''\<rparr>"

text \<open>
  The characters of base64 text, and a data-URI header \<open>data:image/<word>;base64,\<close>.
\<close>

definition is_base64_char :: "char \<Rightarrow> bool" where
  "is_base64_char c =
     (let n = (of_char c :: nat)
      in (65 \<le> n \<and> n \<le> 90) \<or> (97 \<le> n \<and> n \<le> 122) \<or> (48 \<le> n \<and> n \<le> 57)
         \<or> c = CHR ''+'' \<or> c = CHR ''/'' \<or> c = CHR ''='')"

definition data_uri_header :: "string \<Rightarrow> string" where
  "data_uri_header w = ''data:image/'' @ w @ '';base64,''"

text \<open>
  The index \<open>srcIdx\<close> that \<open>resizeNearestNeighbor\<close> reads for destination pixel
  \<open>(x, y)\<close>, and the byte it stores at index \<open>j\<close> of the new buffer.
\<close>

definition src_index :: "nat \<Rightarrow> nat \<Rightarrow> nat \<Rightarrow> nat \<Rightarrow> nat \<Rightarrow> nat \<Rightarrow> nat" where
  "src_index oldW oldH newW newH x y =
     (src_coord y oldH newH * oldW + src_coord x oldW newW) * 4"

definition resized_byte :: "image \<Rightarrow> nat \<Rightarrow> nat \<Rightarrow> nat \<Rightarrow> 8 word" where
  "resized_byte img newW newH j =
     (let p = j div 4; y = p div newW; x = p mod newW
      in to_uint8 (array_get (data img)
           (src_index (width img) (height img) newW newH x y + j mod 4)))"

text \<open>
  The pattern of above-threshold detections of an output array: for each detection the
  loop visits, whether its confidence passes the test.
\<close>

definition detection_pattern :: "jsnum list \<Rightarrow> bool list" where
  "detection_pattern output =
     map (above_threshold output) [0..<loop_count (numDetections_of output)]"

text \<open>
  A number that \<open>Math.random()\<close> can return: a double in the interval from 0 (included)
  to 1 (excluded). The doubles just below 1 are spaced \<open>2 ^ -53\<close> apart, so the largest is
  \<open>1 - 2 ^ -53\<close>.
\<close>

definition unit_double :: "rat \<Rightarrow> bool" where
  "unit_double r \<longleftrightarrow> 0 \<le> r \<and> r \<le> 1 - 1 / 2 ^ 53"

text \<open>The form \<open>KA\<close> n \<open>AB\<close> m of a plate text, with \<open>n\<close> up to 99 and \<open>m\<close> up to 9999.\<close>

definition well_formed_text :: "string \<Rightarrow> bool" where
  "well_formed_text t \<longleftrightarrow>
     (\<exists>n m. t = ''KA'' @ Number_toString n @ ''AB'' @ Number_toString m
            \<and> 0 \<le> n \<and> n \<le> 99 \<and> 0 \<le> m \<and> m \<le> 9999)"

text \<open>
  A decoder pair for examples: the base64 text \<open>/9g=\<close> decodes to the two bytes of a JPEG
  start marker, which the JPEG decoder accepts as a one-pixel image; it rejects all else.
\<close>

definition example_image :: image where
  "example_image = \<lparr>width = 1, height = 1, data = [255, 0, 51, 255]\<rparr>"

definition example_Buffer_from :: "string \<Rightarrow> 8 word list" where
  "example_Buffer_from s = (if s = ''/9g='' then [0xFF, 0xD8] else [])"

definition example_jpeg_decode :: "8 word list \<Rightarrow> js_error + image" where
  "example_jpeg_decode b = (if b = [0xFF, 0xD8] then Inr example_image else Inl (Error ''not a JPEG''))"

section \<open>The decoding loop\<close>

lemma js_lt_loop_count:
  "n \<noteq> PosInf \<Longrightarrow> js_lt (Fin (of_nat i)) n \<longleftrightarrow> i < loop_count n"
proof (cases n)
  case (Fin q)
  have "(of_nat i < q) = (int i < \<lceil>q\<rceil>)"
    using less_ceiling_iff [of "int i" q] by simp
  then show ?thesis using Fin by (simp add: loop_count_def) linarith
qed (simp_all add: loop_count_def)

lemma processOutput_loop_unroll:
  assumes "n \<noteq> PosInf"
  shows "i \<le> loop_count n \<Longrightarrow>
    processOutput_loop output n rs i st =
      Some (fold (processOutput_body output rs) [i..<loop_count n] st)"
proof (induction "loop_count n - i" arbitrary: i st)
  case 0
  then have "\<not> js_lt (Fin (of_nat i)) n" using assms by (simp add: js_lt_loop_count)
  then show ?case using 0 by (subst processOutput_loop.simps) simp
next
  case (Suc d)
  then have lt: "i < loop_count n" by simp
  then have g: "js_lt (Fin (of_nat i)) n" using assms by (simp add: js_lt_loop_count)
  have "processOutput_loop output n rs i st =
        processOutput_loop output n rs (i + 1) (processOutput_body output rs i st)"
    using g by (subst processOutput_loop.simps) simp
  also have "\<dots> = Some (fold (processOutput_body output rs) [i + 1..<loop_count n]
                        (processOutput_body output rs i st))"
    using Suc lt by (intro Suc.hyps(1)) simp_all
  also have "\<dots> = Some (fold (processOutput_body output rs) [i..<loop_count n] st)"
    using lt by (simp add: upt_conv_Cons)
  finally show ?case .
qed

lemma Math_min_10_not_PosInf: "Math_min v (Fin 10) \<noteq> PosInf"
  by (cases v) (simp_all add: Math_min_def)

lemma loop_count_Math_min_10: "loop_count (Math_min v (Fin 10)) \<le> 10"
proof (cases v)
  case (Fin q)
  show ?thesis
  proof (cases "q < 10")
    case True
    then have "\<lceil>q\<rceil> \<le> 10" by (simp add: ceiling_le_iff)
    then have "nat \<lceil>q\<rceil> \<le> 10" by linarith
    then show ?thesis using Fin True by (simp add: Math_min_def loop_count_def)
  next
    case False
    then show ?thesis using Fin by (simp add: Math_min_def loop_count_def)
  qed
qed (simp_all add: Math_min_def loop_count_def)

lemma processOutput_unroll:
  "processOutput output rs k =
     Some (fold (processOutput_body output rs) [0..<loop_count (numDetections_of output)] ([], k))"
  unfolding processOutput_def Let_def numDetections_of_def
  by (rule processOutput_loop_unroll) (simp_all add: Math_min_10_not_PosInf)

lemma processOutput_body_cases:
  "processOutput_body output rs i (ps, k) =
     (if above_threshold output i
      then (ps @ [\<lparr>confidence = fst (detection_at output i), bbox = snd (detection_at output i),
                     plate_text = fst (random_text rs k)\<rparr>], Suc (Suc k))
      else (ps, k))"
  by (simp add: processOutput_body_def above_threshold_def detection_at_def random_text_def
      Math_random_def Let_def)

lemma fold_body_candidates:
  "map candidate (fst (fold (processOutput_body output rs) js (ps, k))) =
     map candidate ps @ map (detection_at output) (filter (above_threshold output) js)"
  by (induction js arbitrary: ps k) (simp_all add: processOutput_body_cases candidate_def)

lemma fold_body_cursor:
  "snd (fold (processOutput_body output rs) js (ps, k)) =
     k + 2 * length (filter (above_threshold output) js)"
  by (induction js arbitrary: ps k) (simp_all add: processOutput_body_cases)

lemma fold_body_length:
  "length (fst (fold (processOutput_body output rs) js (ps, k))) =
     length ps + length (filter (above_threshold output) js)"
  by (induction js arbitrary: ps k) (simp_all add: processOutput_body_cases)

lemma fold_body_texts:
  "map plate_text (fst (fold (processOutput_body output rs) js (ps, k))) =
     map plate_text ps @ random_texts rs k (length (filter (above_threshold output) js))"
  by (induction js arbitrary: ps k) (simp_all add: processOutput_body_cases)

lemma loop_count_of_nat: "loop_count (Math_min (Fin (of_nat N)) (Fin 10)) = min N 10"
proof (cases "N < 10")
  case True
  then have "(of_nat N :: rat) < 10" by (metis of_nat_less_iff of_nat_numeral)
  then show ?thesis using True by (simp add: Math_min_def loop_count_def)
next
  case False
  then have "\<not> (of_nat N :: rat) < 10" by (metis of_nat_less_iff of_nat_numeral)
  then show ?thesis using False by (simp add: Math_min_def loop_count_def)
qed

lemma loop_count_nonpositive:
  assumes "js_le v (Fin 0)"
  shows "loop_count (Math_min v (Fin 10)) = 0"
proof (cases v)
  case (Fin q)
  then have "q \<le> 0" using assms by (simp add: js_le_def)
  then have "\<lceil>q\<rceil> \<le> 0" by (simp add: ceiling_le_iff)
  then show ?thesis using Fin \<open>q \<le> 0\<close> by (simp add: Math_min_def loop_count_def)
qed (use assms in \<open>simp_all add: Math_min_def loop_count_def js_le_def\<close>)

section \<open>Properties of \<open>processOutput\<close>\<close>

text \<open>
  Claim C1. When element 0 of the output array is a natural number \<open>N\<close> and the array
  holds \<open>N\<close> records of six numbers from index 1 on, \<open>processOutput\<close> returns at most
  \<open>min N 10\<close> records: exactly the detections \<open>i < min N 10\<close> whose confidence, the
  element at index \<open>1 + i * 6 + 4\<close>, is greater than \<open>0.5\<close>, in order, each with the
  confidence and the box read from the array. A detection whose confidence is at most
  \<open>0.5\<close> gives no record.
\<close>

theorem processOutput_filters_by_confidence:
  assumes "array_get output 0 = Some (Fin (of_nat N))"
    and "1 + 6 * N \<le> length output"
  shows "\<exists>ps k'. processOutput output rs k = Some (ps, k')
           \<and> length ps \<le> min N 10
           \<and> map candidate ps =
               map (\<lambda>i. (Some (output ! (1 + i * 6 + 4)),
                         \<lparr>x1 = Some (output ! (1 + i * 6)), y1 = Some (output ! (1 + i * 6 + 1)),
                          x2 = Some (output ! (1 + i * 6 + 2)), y2 = Some (output ! (1 + i * 6 + 3))\<rparr>))
                 (filter (\<lambda>i. js_gt (output ! (1 + i * 6 + 4)) (Fin (1 / 2))) [0..<min N 10])"
proof -
  let ?js = "[0..<min N 10]"
  let ?r = "fold (processOutput_body output rs) ?js ([], k)"
  have n: "loop_count (numDetections_of output) = min N 10"
    using assms(1) by (simp add: numDetections_of_def loop_count_of_nat)
  have r: "processOutput output rs k = Some (fst ?r, snd ?r)"
    by (simp add: processOutput_unroll n)
  have inr: "1 + i * 6 + 4 < length output" if "i \<in> set ?js" for i
    using that assms(2) by simp
  have f: "filter (above_threshold output) ?js =
           filter (\<lambda>i. js_gt (output ! (1 + i * 6 + 4)) (Fin (1 / 2))) ?js"
    by (rule filter_cong [OF refl])
       (use inr in \<open>simp add: above_threshold_def array_get_def CONFIDENCE_THRESHOLD_def\<close>)
  have len: "length (fst ?r) \<le> min N 10"
    using length_filter_le [of "above_threshold output" ?js]
    by (simp add: fold_body_length del: length_filter_le)
  have m: "map (detection_at output) (filter P ?js) =
      map (\<lambda>i. (Some (output ! (1 + i * 6 + 4)),
                \<lparr>x1 = Some (output ! (1 + i * 6)), y1 = Some (output ! (1 + i * 6 + 1)),
                 x2 = Some (output ! (1 + i * 6 + 2)), y2 = Some (output ! (1 + i * 6 + 3))\<rparr>))
        (filter P ?js)" for P
  proof (rule map_cong [OF refl])
    fix i assume "i \<in> set (filter P ?js)"
    then have "i \<in> set ?js" by simp
    from inr [OF this] show "detection_at output i =
        (Some (output ! (1 + i * 6 + 4)),
         \<lparr>x1 = Some (output ! (1 + i * 6)), y1 = Some (output ! (1 + i * 6 + 1)),
          x2 = Some (output ! (1 + i * 6 + 2)), y2 = Some (output ! (1 + i * 6 + 3))\<rparr>)"
      by (simp add: detection_at_def array_get_def)
  qed
  have c: "map candidate (fst ?r) =
      map (\<lambda>i. (Some (output ! (1 + i * 6 + 4)),
                \<lparr>x1 = Some (output ! (1 + i * 6)), y1 = Some (output ! (1 + i * 6 + 1)),
                 x2 = Some (output ! (1 + i * 6 + 2)), y2 = Some (output ! (1 + i * 6 + 3))\<rparr>))
        (filter (\<lambda>i. js_gt (output ! (1 + i * 6 + 4)) (Fin (1 / 2))) ?js)"
    by (simp only: fold_body_candidates list.map append_Nil m f)
  from r len c show ?thesis by blast
qed

text \<open>The theorem at a concrete array.\<close>

theorem processOutput_filters_by_confidence_witness:
  "array_get [Fin 2, Fin 1, Fin 2, Fin 3, Fin 4, Fin (9/10), Fin 0,
              Fin 5, Fin 6, Fin 7, Fin 8, Fin (1/2), Fin 0] 0 = Some (Fin (of_nat 2))
   \<and> 1 + 6 * 2 \<le> length [Fin 2, Fin 1, Fin 2, Fin 3, Fin 4, Fin (9/10), Fin 0,
              Fin 5, Fin 6, Fin 7, Fin 8, Fin (1/2), Fin 0]
   \<and> (\<exists>ps k'. processOutput [Fin 2, Fin 1, Fin 2, Fin 3, Fin 4, Fin (9/10), Fin 0,
              Fin 5, Fin 6, Fin 7, Fin 8, Fin (1/2), Fin 0] (\<lambda>_. 1 / 2) 0 = Some (ps, k')
        \<and> length ps \<le> 2
        \<and> map candidate ps =
            [(Some (Fin (9/10)), \<lparr>x1 = Some (Fin 1), y1 = Some (Fin 2), x2 = Some (Fin 3), y2 = Some (Fin 4)\<rparr>)])"
proof -
  let ?out = "[Fin 2, Fin 1, Fin 2, Fin 3, Fin 4, Fin (9/10), Fin 0,
              Fin 5, Fin 6, Fin 7, Fin 8, Fin (1/2), Fin 0]"
  have h1: "array_get ?out 0 = Some (Fin (of_nat 2))" by (simp add: array_get_def)
  have h2: "1 + 6 * 2 \<le> length ?out" by simp
  have u: "[0..<2] = [0, Suc 0]" by (simp add: upt_rec)
  show ?thesis
    using processOutput_filters_by_confidence [OF h1 h2, of "\<lambda>_. 1 / 2" 0] h1 h2
    by (simp add: u js_gt_def)
qed

text \<open>
  Claim C8. For every output array, also one shorter than its claimed count implies,
  \<open>processOutput\<close> returns: the loop ends and nothing is raised. It returns at most 10
  records whatever element 0 claims, and every record comes from a detection \<open>i < 10\<close>
  whose confidence was read inside the array, so a read past the end gives no record.
\<close>

theorem processOutput_returns:
  "\<exists>ps k'. processOutput output rs k = Some (ps, k') \<and> length ps \<le> 10
      \<and> (\<forall>p \<in> set ps. \<exists>i<10. 1 + i * 6 + 4 < length output \<and> candidate p = detection_at output i)"
proof -
  let ?n = "loop_count (numDetections_of output)"
  let ?r = "fold (processOutput_body output rs) [0..<?n] ([], k)"
  have n10: "?n \<le> 10" by (simp add: numDetections_of_def loop_count_Math_min_10)
  have r: "processOutput output rs k = Some (fst ?r, snd ?r)"
    by (simp add: processOutput_unroll)
  have len: "length (fst ?r) \<le> 10"
    using length_filter_le [of "above_threshold output" "[0..<?n]"] n10
    by (simp add: fold_body_length del: length_filter_le)
  have oob: "1 + i * 6 + 4 < length output" if "above_threshold output i" for i
    using that
    by (simp add: above_threshold_def array_get_def js_gt_def CONFIDENCE_THRESHOLD_def
        split: if_splits)
  have "\<exists>i<10. 1 + i * 6 + 4 < length output \<and> candidate p = detection_at output i"
    if "p \<in> set (fst ?r)" for p
  proof -
    from that have "candidate p \<in> set (map candidate (fst ?r))" by simp
    then obtain i where "i < ?n" "above_threshold output i" "candidate p = detection_at output i"
      by (auto simp: fold_body_candidates)
    then show ?thesis using n10 oob by (intro exI [of _ i]) simp
  qed
  then show ?thesis using r len by blast
qed

text \<open>The theorem at a concrete array.\<close>

theorem processOutput_returns_witness:
  "\<exists>ps k'. processOutput [Fin 50, Fin 1, Fin 2, Fin 3, Fin 4, Fin (9/10)] (\<lambda>_. 1 / 2) 0 = Some (ps, k')
      \<and> length ps \<le> 10
      \<and> (\<forall>p \<in> set ps. \<exists>i<10. 1 + i * 6 + 4 < 6 \<and> candidate p = 
            detection_at [Fin 50, Fin 1, Fin 2, Fin 3, Fin 4, Fin (9/10)] i)"
  using processOutput_returns [of "[Fin 50, Fin 1, Fin 2, Fin 3, Fin 4, Fin (9/10)]" "\<lambda>_. 1 / 2" 0]
  by simp

text \<open>
  Claim C10. When the first element of the output array is less than or equal to 0
  (a negative number or minus infinity as well as 0), the loop bound is not positive, the
  loop returns its initial state without running its body, which does all the other
  reads, and \<open>processOutput\<close> returns the empty list, whatever follows the first element.
\<close>

theorem processOutput_nonpositive_count:
  assumes "js_le v (Fin 0)"
  shows "js_le (numDetections_of (v # rest)) (Fin 0)
       \<and> processOutput_loop (v # rest) (numDetections_of (v # rest)) rs 0 st = Some st
       \<and> processOutput (v # rest) rs k = Some ([], k)"
proof -
  have n: "numDetections_of (v # rest) = v"
    using assms by (cases v) (simp_all add: numDetections_of_def array_get_def Math_min_def js_le_def)
  have "\<not> js_lt (Fin (of_nat 0)) v"
    using assms by (cases v) (simp_all add: js_le_def)
  then have l: "processOutput_loop (v # rest) v rs 0 st = Some st" for st
    by (subst processOutput_loop.simps) simp
  have "processOutput (v # rest) rs k = processOutput_loop (v # rest) v rs 0 ([], k)"
    using n by (simp add: processOutput_def numDetections_of_def)
  then show ?thesis using assms n l by simp
qed

text \<open>The theorem at a concrete array.\<close>

theorem processOutput_nonpositive_count_witness:
  "js_le (Fin (- 3)) (Fin 0) \<and> js_le (numDetections_of [Fin (- 3), Fin 7, Fin 8]) (Fin 0)
   \<and> processOutput [Fin (- 3), Fin 7, Fin 8] (\<lambda>_. 1 / 2) 4 = Some ([], 4)"
  using processOutput_nonpositive_count [of "Fin (- 3)" "[Fin 7, Fin 8]" "\<lambda>_. 1 / 2" "([], 4)" 4]
  by (simp add: js_le_def)

lemma processOutput_confidence_not_NaN:
  assumes "processOutput output rs k = Some (ps, k')" and "p \<in> set ps"
  shows "conf_num p \<noteq> NaN"
proof -
  let ?r = "fold (processOutput_body output rs) [0..<loop_count (numDetections_of output)] ([], k)"
  have "ps = fst ?r" using assms(1) by (simp add: processOutput_unroll)
  then have "candidate p \<in> set (map candidate (fst ?r))" using assms(2) by simp
  then obtain i where i: "above_threshold output i" "candidate p = detection_at output i"
    by (auto simp: fold_body_candidates)
  from i(2) have "confidence p = array_get output (1 + i * 6 + 4)"
    by (simp add: candidate_def detection_at_def)
  with i(1) have "js_gt (conf_num p) CONFIDENCE_THRESHOLD"
    by (simp add: above_threshold_def conf_num_def)
  then show ?thesis by (cases "conf_num p") (simp_all add: js_gt_def CONFIDENCE_THRESHOLD_def)
qed

section \<open>The selection step and the caller\<close>

lemma js_gt_asym: "js_gt a b \<Longrightarrow> \<not> js_gt b a"
  by (cases a; cases b) (simp_all add: js_gt_def)

lemma js_gt_neg_trans:
  "b \<noteq> NaN \<Longrightarrow> \<not> js_gt a b \<Longrightarrow> \<not> js_gt b c \<Longrightarrow> \<not> js_gt a c"
  by (cases a; cases b; cases c) (simp_all add: js_gt_def)

lemma last_highest_keep:
  assumes "last_highest zs k" and "js_gt (conf_num (zs ! k)) (conf_num y)"
  shows "last_highest (zs @ [y]) k"
  unfolding last_highest_def
proof (intro conjI allI impI)
  show "k < length (zs @ [y])" using assms(1) by (simp add: last_highest_def)
next
  fix j assume "j < length (zs @ [y])"
  then consider "j < length zs" | "j = length zs" by fastforce
  then show "\<not> js_gt (conf_num ((zs @ [y]) ! j)) (conf_num ((zs @ [y]) ! k))"
  proof cases
    case 1
    then show ?thesis using assms(1) by (simp add: last_highest_def nth_append)
  next
    case 2
    then show ?thesis using assms js_gt_asym by (simp add: last_highest_def nth_append)
  qed
next
  fix j assume "j < length (zs @ [y])" "k < j"
  then consider "j < length zs" | "j = length zs" by fastforce
  then show "js_gt (conf_num ((zs @ [y]) ! k)) (conf_num ((zs @ [y]) ! j))"
  proof cases
    case 1
    then show ?thesis using assms(1) \<open>k < j\<close> by (simp add: last_highest_def nth_append)
  next
    case 2
    then show ?thesis using assms by (simp add: last_highest_def nth_append)
  qed
qed

lemma last_highest_replace:
  assumes "last_highest zs k" and "\<not> js_gt (conf_num (zs ! k)) (conf_num y)"
    and "conf_num (zs ! k) \<noteq> NaN"
  shows "last_highest (zs @ [y]) (length zs)"
  unfolding last_highest_def
proof (intro conjI allI impI)
  show "length zs < length (zs @ [y])" by simp
next
  fix j assume "j < length (zs @ [y])"
  then consider "j < length zs" | "j = length zs" by fastforce
  then show "\<not> js_gt (conf_num ((zs @ [y]) ! j)) (conf_num ((zs @ [y]) ! length zs))"
  proof cases
    case 1
    then have "\<not> js_gt (conf_num (zs ! j)) (conf_num (zs ! k))"
      using assms(1) by (simp add: last_highest_def)
    from js_gt_neg_trans [OF assms(3) this assms(2)] show ?thesis
      using 1 by (simp add: nth_append)
  next
    case 2
    then show ?thesis using js_gt_asym by auto
  qed
next
  fix j assume "j < length (zs @ [y])" "length zs < j"
  then show "js_gt (conf_num ((zs @ [y]) ! length zs)) (conf_num ((zs @ [y]) ! j))" by simp
qed

lemma foldl_better_last_highest:
  assumes "\<forall>p \<in> set (x # rest). conf_num p \<noteq> NaN"
  shows "\<exists>k. last_highest (x # rest) k \<and> foldl better x rest = (x # rest) ! k"
  using assms
proof (induction rest rule: rev_induct)
  case Nil
  have "\<not> js_gt (conf_num x) (conf_num x)" using js_gt_asym by blast
  then have "last_highest [x] 0" by (simp add: last_highest_def)
  then show ?case by (intro exI [of _ 0]) simp
next
  case (snoc y rest)
  define zs where "zs = x # rest"
  have "\<forall>p \<in> set (x # rest). conf_num p \<noteq> NaN" using snoc.prems by simp
  with snoc.IH obtain k where k: "last_highest zs k" "foldl better x rest = zs ! k"
    unfolding zs_def by blast
  have "k < length zs" using k(1) by (simp add: last_highest_def)
  then have "zs ! k \<in> set zs" by (rule nth_mem)
  then have nn: "conf_num (zs ! k) \<noteq> NaN" using snoc.prems by (auto simp: zs_def)
  have e: "x # rest @ [y] = zs @ [y]" by (simp add: zs_def)
  have f: "foldl better x (rest @ [y]) = better (zs ! k) y" using k(2) by simp
  show ?case
  proof (cases "js_gt (conf_num (zs ! k)) (conf_num y)")
    case True
    then have "better (zs ! k) y = (zs @ [y]) ! k"
      using \<open>k < length zs\<close> by (simp add: better_def conf_num_def nth_append)
    moreover have "last_highest (zs @ [y]) k" using k(1) True by (rule last_highest_keep)
    ultimately show ?thesis unfolding e f by blast
  next
    case False
    then have "better (zs ! k) y = (zs @ [y]) ! length zs"
      by (simp add: better_def conf_num_def)
    moreover have "last_highest (zs @ [y]) (length zs)"
      using k(1) False nn by (rule last_highest_replace)
    ultimately show ?thesis unfolding e f by blast
  qed
qed

text \<open>
  Claim C2, as amended. For every non-empty list of candidate records (their
  confidences are numbers, as those of the records \<open>processOutput\<close> returns are), the
  selection step returns a record of the list with a highest confidence; when several
  records share the highest confidence, it returns the one encountered last.
\<close>

theorem bestPlate_last_of_highest:
  assumes "plates \<noteq> []" and "\<forall>p \<in> set plates. conf_num p \<noteq> NaN"
  shows "\<exists>k. last_highest plates k \<and> bestPlate_of plates = Some (plates ! k)"
proof -
  from assms(1) obtain x rest where xs: "plates = x # rest" by (cases plates) auto
  have b: "bestPlate_of (x # rest) = Some (foldl better x rest)"
    by (simp add: bestPlate_of_def Array_reduce_def)
  have "\<forall>p \<in> set (x # rest). conf_num p \<noteq> NaN" using assms(2) xs by simp
  then obtain k where "last_highest (x # rest) k" "foldl better x rest = (x # rest) ! k"
    using foldl_better_last_highest by blast
  then show ?thesis unfolding xs b by blast
qed

text \<open>The theorem at the two records of equal confidence: the second is selected.\<close>

theorem bestPlate_last_of_highest_witness:
  "[plateA, plateB] \<noteq> [] \<and> conf_num plateA \<noteq> NaN \<and> conf_num plateB \<noteq> NaN
   \<and> last_highest [plateA, plateB] 1 \<and> bestPlate_of [plateA, plateB] = Some plateB"
proof -
  have h1: "[plateA, plateB] \<noteq> []" by simp
  have h2: "\<forall>p \<in> set [plateA, plateB]. conf_num p \<noteq> NaN"
    by (simp add: conf_num_def plateA_def plateB_def)
  from bestPlate_last_of_highest [OF h1 h2] obtain k
    where k: "last_highest [plateA, plateB] k" "bestPlate_of [plateA, plateB] = Some ([plateA, plateB] ! k)"
    by blast
  have "k < 2" using k(1) by (simp add: last_highest_def)
  moreover have "k \<noteq> 0"
  proof
    assume "k = 0"
    with k(1) have "js_gt (conf_num ([plateA, plateB] ! 0)) (conf_num ([plateA, plateB] ! 1))"
      by (auto simp: last_highest_def)
    then show False by (simp add: conf_num_def plateA_def plateB_def js_gt_def)
  qed
  ultimately have "k = 1" by simp
  with k h1 h2 show ?thesis by simp
qed

text \<open>
  Claim C2 as stated fails: of two candidates with equal confidence the selection step
  does not return the one encountered first.
\<close>

theorem bestPlate_tie_counterexample:
  "confidence plateA = confidence plateB \<and> plateA \<noteq> plateB
   \<and> bestPlate_of [plateA, plateB] \<noteq> Some plateA"
  by (simp add: bestPlate_of_def Array_reduce_def better_def js_gt_def plateA_def plateB_def)

lemma processImage_inference_failure:
  "processImage eng (Inl e) rs k s =
     Some (s\<lparr>alerts := alerts s @
               [(''Processing Failed'',
                 if message e = [] then ''Could not detect license plate. Try again or enter manually.''
                 else message e)],
             isProcessing := False\<rparr>, k)"
  by (simp add: processImage_def catch_block_def finally_block_def)

text \<open>
  Claim C6. When element 0 of the output array is 0, \<open>processOutput\<close> returns the empty
  list, and \<open>processImage\<close> treats it as an error of its own: it shows the alert
  \<open>No license plates detected\<close>, does not navigate, leaves the plate and the state code
  as they were and resets the processing flag. The outcome differs from that of every
  failure of the inference itself whose message is another one.
\<close>

theorem processImage_no_detection:
  assumes "array_get output 0 = Some (Fin 0)"
  shows "processOutput output rs k = Some ([], k)
       \<and> (\<exists>s'. processImage eng (Inr (output # others)) rs k s = Some (s', k)
              \<and> alerts s' = alerts s @ [(''Processing Failed'', ''No license plates detected'')]
              \<and> navigations s' = navigations s
              \<and> licensePlate s' = licensePlate s \<and> stateCode s' = stateCode s
              \<and> \<not> isProcessing s')
       \<and> (\<forall>e. message e \<noteq> ''No license plates detected'' \<longrightarrow>
              processImage eng (Inl e) rs k s \<noteq> processImage eng (Inr (output # others)) rs k s)"
proof -
  from assms obtain rest where o: "output = Fin 0 # rest"
    by (cases "output") (simp_all add: array_get_def)
  have "js_le (Fin 0) (Fin 0)" by (simp add: js_le_def)
  then have "loop_count (Math_min (Fin 0) (Fin 10)) = 0" by (rule loop_count_nonpositive)
  then have p: "processOutput output rs k = Some ([], k)"
    unfolding o by (simp add: processOutput_unroll numDetections_of_def array_get_def)
  have q: "processImage eng (Inr (output # others)) rs k s =
      Some (s\<lparr>alerts := alerts s @ [(''Processing Failed'', ''No license plates detected'')],
              isProcessing := False\<rparr>, k)"
    by (simp add: p processImage_def catch_block_def finally_block_def)
  have d: "processImage eng (Inl e) rs k s \<noteq> processImage eng (Inr (output # others)) rs k s"
    if "message e \<noteq> ''No license plates detected''" for e
  proof
    assume "processImage eng (Inl e) rs k s = processImage eng (Inr (output # others)) rs k s"
    then have "alerts (fst (the (processImage eng (Inl e) rs k s))) =
               alerts (fst (the (processImage eng (Inr (output # others)) rs k s)))"
      by (rule arg_cong)
    then show False
      using that unfolding q processImage_inference_failure by (simp split: if_splits)
  qed
  have r: "\<exists>s'. processImage eng (Inr (output # others)) rs k s = Some (s', k)
              \<and> alerts s' = alerts s @ [(''Processing Failed'', ''No license plates detected'')]
              \<and> navigations s' = navigations s
              \<and> licensePlate s' = licensePlate s \<and> stateCode s' = stateCode s
              \<and> \<not> isProcessing s'"
    unfolding q by simp
  from p r d show ?thesis by blast
qed

text \<open>The theorem at a concrete array and screen.\<close>

theorem processImage_no_detection_witness:
  "array_get [Fin 0, Fin 1, Fin 2, Fin 3, Fin 4, Fin (9 / 10), Fin 0] 0 = Some (Fin 0)
   \<and> processOutput [Fin 0, Fin 1, Fin 2, Fin 3, Fin 4, Fin (9 / 10), Fin 0] (\<lambda>_. 1 / 2) 0 = Some ([], 0)
   \<and> (\<exists>s'. processImage \<lparr>index_undefined_error = Error ''TypeError'', reduce_empty_error = Error ''TypeError''\<rparr>
              (Inr [[Fin 0, Fin 1, Fin 2, Fin 3, Fin 4, Fin (9 / 10), Fin 0]])
              (\<lambda>_. 1 / 2) 0
              \<lparr>isProcessing = True, licensePlate = [], stateCode = [], alerts = [], navigations = []\<rparr>
            = Some (s', 0)
          \<and> alerts s' = [(''Processing Failed'', ''No license plates detected'')]
          \<and> navigations s' = [])"
proof -
  let ?out = "[Fin 0, Fin 1, Fin 2, Fin 3, Fin 4, Fin (9 / 10), Fin 0]"
  have h: "array_get ?out 0 = Some (Fin 0)" by (simp add: array_get_def)
  from processImage_no_detection [OF h, of "\<lambda>_. 1 / 2" 0
      "\<lparr>index_undefined_error = Error ''TypeError'', reduce_empty_error = Error ''TypeError''\<rparr>" "[]"
      "\<lparr>isProcessing = True, licensePlate = [], stateCode = [], alerts = [], navigations = []\<rparr>"]
  show ?thesis using h by simp blast
qed

section \<open>The data-URI prefix\<close>

lemma match_literal_append: "match_literal lit (lit @ s) = Some s"
  by (simp add: match_literal_def)

lemma semicolon_not_word: "\<not> is_word_char CHR '';''"
  by (simp add: is_word_char_def)

lemma colon_not_base64: "\<not> is_base64_char CHR '':''"
  by (simp add: is_base64_char_def)

lemma strip_data_uri_header:
  assumes "w \<noteq> []" and "\<forall>c \<in> set w. is_word_char c"
  shows "strip_data_uri (data_uri_header w @ s) = s"
proof -
  define rest where "rest = '';base64,'' @ s"
  have hd_rest: "rest = CHR '';'' # ''base64,'' @ s" by (simp add: rest_def)
  have m: "match_literal ''data:image/'' (data_uri_header w @ s) = Some (w @ rest)"
    unfolding data_uri_header_def rest_def append_assoc by (rule match_literal_append)
  have t: "takeWhile is_word_char (w @ rest) = w"
    using assms(2) semicolon_not_word by (simp add: takeWhile_append2 hd_rest)
  have d: "dropWhile is_word_char (w @ rest) = rest"
    using assms(2) semicolon_not_word by (simp add: dropWhile_append2 hd_rest)
  have m2: "match_literal '';base64,'' rest = Some s"
    unfolding rest_def by (rule match_literal_append)
  show ?thesis
    using assms(1) by (simp add: strip_data_uri_def m t d m2)
qed

lemma strip_data_uri_base64:
  assumes "\<forall>c \<in> set s. is_base64_char c"
  shows "strip_data_uri s = s"
proof -
  have "match_literal ''data:image/'' s = None"
  proof (rule ccontr)
    assume "match_literal ''data:image/'' s \<noteq> None"
    then have "take (length ''data:image/'') s = ''data:image/''"
      by (simp add: match_literal_def split: if_splits)
    then have "set ''data:image/'' \<subseteq> set s"
      by (metis set_take_subset)
    then have "CHR '':'' \<in> set s" by simp
    then show False using assms colon_not_base64 by blast
  qed
  then show ?thesis by (simp add: strip_data_uri_def)
qed

text \<open>
  Claim C5. For every string \<open>s\<close> over the base64 alphabet and every header
  \<open>data:image/<word>;base64,\<close> with a non-empty word, stripping the prefix of the
  prefixed string gives \<open>s\<close>, and stripping \<open>s\<close> itself removes nothing; so the base64
  decoder receives the same text, decodes the same bytes, and \<open>base64ToTensor\<close> returns
  the same result for both.
\<close>

theorem data_uri_prefix_is_stripped:
  assumes "w \<noteq> []" and "\<forall>c \<in> set w. is_word_char c" and "\<forall>c \<in> set s. is_base64_char c"
  shows "strip_data_uri (data_uri_header w @ s) = s \<and> strip_data_uri s = s
       \<and> Buffer_from (strip_data_uri (data_uri_header w @ s)) = Buffer_from (strip_data_uri s)
       \<and> base64ToTensor Buffer_from jpeg_decode (data_uri_header w @ s) targetW targetH =
           base64ToTensor Buffer_from jpeg_decode s targetW targetH"
proof -
  have a: "strip_data_uri (data_uri_header w @ s) = s"
    using assms(1,2) by (rule strip_data_uri_header)
  have b: "strip_data_uri s = s" using assms(3) by (rule strip_data_uri_base64)
  show ?thesis unfolding base64ToTensor_def a b by simp
qed

text \<open>The theorem at the header \<open>data:image/jpeg;base64,\<close>.\<close>

theorem data_uri_prefix_is_stripped_witness:
  "''jpeg'' \<noteq> [] \<and> list_all is_word_char ''jpeg'' \<and> list_all is_base64_char ''/9g=''
   \<and> strip_data_uri ''data:image/jpeg;base64,/9g='' = ''/9g=''
   \<and> strip_data_uri ''/9g='' = ''/9g=''
   \<and> base64ToTensor example_Buffer_from example_jpeg_decode ''data:image/jpeg;base64,/9g='' 640 640
       = base64ToTensor example_Buffer_from example_jpeg_decode ''/9g='' 640 640"
proof -
  have h1: "''jpeg'' \<noteq> []" by simp
  have h2: "\<forall>c \<in> set ''jpeg''. is_word_char c" by (simp add: is_word_char_def)
  have h3: "\<forall>c \<in> set ''/9g=''. is_base64_char c" by (simp add: is_base64_char_def)
  from data_uri_prefix_is_stripped [OF h1 h2 h3, of example_Buffer_from example_jpeg_decode 640 640]
  show ?thesis using h2 h3 by (simp add: data_uri_header_def list_all_iff)
qed

section \<open>Nearest-neighbour resizing\<close>

lemma div4_unique:
  fixes a j :: nat
  assumes "a * 4 \<le> j" and "j < a * 4 + 4"
  shows "j div 4 = a" and "j mod 4 = j - a * 4"
  using assms by presburger+

lemma div4_bounds:
  fixes a b j :: nat
  shows "a * 4 \<le> j \<Longrightarrow> a \<le> j div 4" and "j < b * 4 \<Longrightarrow> j div 4 < b"
  by presburger+

lemma length_copy_pixel [simp]: "length (copy_pixel od s d nd) = length nd"
  by (simp add: copy_pixel_def)

lemma nth_copy_pixel:
  assumes "j < length nd"
  shows "copy_pixel od s d nd ! j =
           (if d \<le> j \<and> j < d + 4 then to_uint8 (array_get od (s + (j - d))) else nd ! j)"
proof -
  consider "j < d" | "j = d" | "j = d + 1" | "j = d + 2" | "j = d + 3" | "d + 4 \<le> j"
    by linarith
  then show ?thesis
    using assms by cases (simp_all add: copy_pixel_def nth_list_update)
qed

lemma length_fold_resize_pixel [simp]:
  "length (fold (resize_pixel oldW od newW srcY y) xs nd) = length nd"
  by (induction xs arbitrary: nd) (simp_all add: resize_pixel_def)

lemma nth_fold_resize_pixel:
  assumes "j < length nd"
  shows "fold (resize_pixel oldW od newW srcY y) [0..<n] nd ! j =
           (if y * newW * 4 \<le> j \<and> j < (y * newW + n) * 4
            then to_uint8 (array_get od
                   ((srcY * oldW + src_coord (j div 4 - y * newW) oldW newW) * 4 + j mod 4))
            else nd ! j)"
proof (induction n)
  case 0
  show ?case by auto
next
  case (Suc n)
  let ?nd = "fold (resize_pixel oldW od newW srcY y) [0..<n] nd"
  let ?d = "(y * newW + n) * 4"
  have len: "j < length ?nd" using assms by simp
  have step: "fold (resize_pixel oldW od newW srcY y) [0..<Suc n] nd ! j =
              copy_pixel od ((srcY * oldW + src_coord n oldW newW) * 4) ?d ?nd ! j"
    by (simp add: resize_pixel_def)
  show ?case
  proof (cases "?d \<le> j \<and> j < ?d + 4")
    case True
    then have dv: "j div 4 = y * newW + n" and md: "j mod 4 = j - ?d"
      using div4_unique [of "y * newW + n" j] by simp_all
    show ?thesis
      unfolding step nth_copy_pixel [OF len] using True by (simp add: dv md)
  next
    case False
    then have "fold (resize_pixel oldW od newW srcY y) [0..<Suc n] nd ! j = ?nd ! j"
      unfolding step nth_copy_pixel [OF len] by (simp only: if_not_P [OF False] if_False)
    also have "\<dots> = (if y * newW * 4 \<le> j \<and> j < (y * newW + n) * 4
            then to_uint8 (array_get od
                   ((srcY * oldW + src_coord (j div 4 - y * newW) oldW newW) * 4 + j mod 4))
            else nd ! j)" by (rule Suc.IH)
    also have "\<dots> = (if y * newW * 4 \<le> j \<and> j < (y * newW + Suc n) * 4
            then to_uint8 (array_get od
                   ((srcY * oldW + src_coord (j div 4 - y * newW) oldW newW) * 4 + j mod 4))
            else nd ! j)"
      using False by auto
    finally show ?thesis .
  qed
qed

lemma length_fold_resize_row [simp]:
  "length (fold (resize_row oldW oldH od newW newH) ys nd) = length nd"
  by (induction ys arbitrary: nd) (simp_all add: resize_row_def)

lemma pixel_of_row:
  fixes y newW j :: nat
  assumes "y * newW * 4 \<le> j" and "j < (y * newW + newW) * 4"
  shows "j div 4 div newW = y" and "j div 4 mod newW = j div 4 - y * newW"
proof -
  have lo: "y * newW \<le> j div 4" using assms(1) by (rule div4_bounds)
  have hi: "j div 4 < y * newW + newW" using assms(2) by (rule div4_bounds)
  have pos: "0 < newW" using lo hi by (cases newW) simp_all
  obtain r where r: "j div 4 = r + y * newW" using lo by (metis le_add_diff_inverse2)
  then have rlt: "r < newW" using hi by simp
  show "j div 4 div newW = y" unfolding r using rlt by simp
  show "j div 4 mod newW = j div 4 - y * newW" unfolding r using rlt by simp
qed

lemma nth_fold_resize_row:
  assumes "j < length nd"
  shows "fold (resize_row (width img) (height img) (data img) newW newH) [0..<m] nd ! j =
           (if j < m * newW * 4 then resized_byte img newW newH j else nd ! j)"
proof (induction m)
  case 0
  show ?case by simp
next
  case (Suc m)
  let ?nd = "fold (resize_row (width img) (height img) (data img) newW newH) [0..<m] nd"
  have len: "j < length ?nd" using assms by simp
  have step: "fold (resize_row (width img) (height img) (data img) newW newH) [0..<Suc m] nd ! j =
      fold (resize_pixel (width img) (data img) newW (src_coord m (height img) newH) m) [0..<newW] ?nd ! j"
    by (simp add: resize_row_def)
  show ?case
  proof (cases "m * newW * 4 \<le> j \<and> j < (m * newW + newW) * 4")
    case True
    note pr = pixel_of_row [of m newW j]
    have "resized_byte img newW newH j =
        to_uint8 (array_get (data img)
          ((src_coord m (height img) newH * width img
             + src_coord (j div 4 - m * newW) (width img) newW) * 4 + j mod 4))"
      using True by (simp add: resized_byte_def src_index_def Let_def pr)
    then show ?thesis
      unfolding step nth_fold_resize_pixel [OF len] using True by simp
  next
    case False
    then have "fold (resize_row (width img) (height img) (data img) newW newH) [0..<Suc m] nd ! j
        = ?nd ! j"
      unfolding step nth_fold_resize_pixel [OF len] by (simp only: if_not_P [OF False] if_False)
    also have "\<dots> = (if j < m * newW * 4 then resized_byte img newW newH j else nd ! j)"
      by (rule Suc.IH)
    also have "\<dots> = (if j < Suc m * newW * 4 then resized_byte img newW newH j else nd ! j)"
      using False by auto
    finally show ?thesis .
  qed
qed

lemma length_resizeNearestNeighbor:
  "length (data (resizeNearestNeighbor img newW newH)) = newW * newH * 4"
  by (simp add: resizeNearestNeighbor_def)

lemma nth_resizeNearestNeighbor:
  assumes "j < newW * newH * 4"
  shows "data (resizeNearestNeighbor img newW newH) ! j = resized_byte img newW newH j"
proof -
  have "j < length (replicate (newW * newH * 4) (0 :: 8 word))" using assms by simp
  from nth_fold_resize_row [OF this, of img newW newH newH]
  show ?thesis using assms by (simp add: resizeNearestNeighbor_def mult.commute)
qed

lemma src_coord_less: "0 < oldDim \<Longrightarrow> d < newDim \<Longrightarrow> src_coord d oldDim newDim < oldDim"
proof -
  assume "0 < oldDim" "d < newDim"
  then have "d * oldDim < oldDim * newDim" by (simp add: mult.commute)
  then show ?thesis
    unfolding src_coord_def by (simp add: less_mult_imp_div_less)
qed

lemma src_coord_same: "d < n \<Longrightarrow> src_coord d n n = d"
  by (simp add: src_coord_def)

lemma src_index_in_bounds:
  assumes "0 < oldW" "0 < oldH" "x < newW" "y < newH" "c < 4"
  shows "src_index oldW oldH newW newH x y + c < oldW * oldH * 4"
proof -
  have sx: "src_coord x oldW newW < oldW" using assms by (simp add: src_coord_less)
  have sy: "src_coord y oldH newH < oldH" using assms by (simp add: src_coord_less)
  have "src_coord y oldH newH * oldW + src_coord x oldW newW < Suc (src_coord y oldH newH) * oldW"
    using sx by simp
  also have "\<dots> \<le> oldH * oldW" using sy by (intro mult_le_mono1) simp
  finally have "src_coord y oldH newH * oldW + src_coord x oldW newW < oldW * oldH"
    by (simp add: mult.commute)
  then show ?thesis using assms(5) by (simp add: src_index_def)
qed

text \<open>
  Claim C4. For every pixel buffer whose data has length width * height * 4, resizing
  to the buffer's own dimensions returns a buffer of the same dimensions whose data is
  equal to the source data, element for element.
\<close>

theorem resize_identity:
  assumes "length (data img) = width img * height img * 4"
  shows "data (resizeNearestNeighbor img (width img) (height img)) = data img
       \<and> width (resizeNearestNeighbor img (width img) (height img)) = width img
       \<and> height (resizeNearestNeighbor img (width img) (height img)) = height img"
proof -
  let ?W = "width img" and ?H = "height img"
  have "data (resizeNearestNeighbor img ?W ?H) ! j = data img ! j" if j: "j < ?W * ?H * 4" for j
  proof -
    have p: "j div 4 < ?W * ?H" using j by (rule div4_bounds)
    then have W: "0 < ?W" by (cases "?W") simp_all
    have y: "j div 4 div ?W < ?H" using p W by (simp add: less_mult_imp_div_less mult.commute)
    have x: "j div 4 mod ?W < ?W" using W by simp
    have "src_index ?W ?H ?W ?H (j div 4 mod ?W) (j div 4 div ?W) + j mod 4
          = (j div 4 div ?W * ?W + j div 4 mod ?W) * 4 + j mod 4"
      using x y by (simp add: src_index_def src_coord_same)
    also have "\<dots> = j div 4 * 4 + j mod 4" by simp
    also have "\<dots> = j" by simp
    finally have "resized_byte img ?W ?H j = to_uint8 (array_get (data img) j)"
      by (simp add: resized_byte_def Let_def)
    also have "\<dots> = data img ! j" using j assms by (simp add: array_get_def to_uint8_def)
    finally show ?thesis using j by (simp add: nth_resizeNearestNeighbor)
  qed
  then have "data (resizeNearestNeighbor img ?W ?H) = data img"
    using assms by (intro nth_equalityI) (simp_all add: length_resizeNearestNeighbor)
  then show ?thesis by (simp add: resizeNearestNeighbor_def)
qed

text \<open>The theorem at a buffer of one column and two rows.\<close>

theorem resize_identity_witness:
  "length (data \<lparr>width = 1, height = 2, data = [1, 2, 3, 4, 5, 6, 7, 8]\<rparr>) =
     width \<lparr>width = 1, height = 2, data = [1, 2, 3, 4, 5, 6, 7, 8 :: 8 word]\<rparr>
       * height \<lparr>width = 1, height = 2, data = [1, 2, 3, 4, 5, 6, 7, 8 :: 8 word]\<rparr> * 4
   \<and> data (resizeNearestNeighbor \<lparr>width = 1, height = 2, data = [1, 2, 3, 4, 5, 6, 7, 8]\<rparr> 1 2)
       = [1, 2, 3, 4, 5, 6, 7, 8]"
  using resize_identity [of "\<lparr>width = 1, height = 2, data = [1, 2, 3, 4, 5, 6, 7, 8]\<rparr>"]
  by simp

text \<open>
  Claim C7. For a source buffer of positive dimensions and well-formed data, and every
  destination pixel \<open>(x, y)\<close> with \<open>x < newW\<close> and \<open>y < newH\<close>, the source coordinates
  \<open>x * oldW div newW\<close> and \<open>y * oldH div newH\<close> are below \<open>oldW\<close> and \<open>oldH\<close>, each of the
  four reads at \<open>srcIdx + c\<close> is inside the source data (it is not \<open>undefined\<close>), and the
  byte stored for the destination pixel is the byte read.
\<close>

theorem source_reads_in_bounds:
  assumes "0 < width img" and "0 < height img"
    and "length (data img) = width img * height img * 4"
    and "x < newW" and "y < newH" and "c < 4"
  shows "src_coord x (width img) newW < width img
       \<and> src_coord y (height img) newH < height img
       \<and> array_get (data img) (src_index (width img) (height img) newW newH x y + c)
           = Some (data img ! (src_index (width img) (height img) newW newH x y + c))
       \<and> data (resizeNearestNeighbor img newW newH) ! ((y * newW + x) * 4 + c)
           = data img ! (src_index (width img) (height img) newW newH x y + c)"
proof -
  let ?W = "width img" and ?H = "height img"
  define j where "j = (y * newW + x) * 4 + c"
  have sx: "src_coord x ?W newW < ?W" using assms by (simp add: src_coord_less)
  have sy: "src_coord y ?H newH < ?H" using assms by (simp add: src_coord_less)
  have inb: "src_index ?W ?H newW newH x y + c < length (data img)"
    using assms by (simp add: src_index_in_bounds)
  then have rd: "array_get (data img) (src_index ?W ?H newW newH x y + c)
      = Some (data img ! (src_index ?W ?H newW newH x y + c))"
    by (simp add: array_get_def)
  have dv: "j div 4 = y * newW + x" and md: "j mod 4 = c"
    using div4_unique [of "y * newW + x" j] assms(6) by (simp_all add: j_def)
  have yx: "(y * newW + x) div newW = y" "(y * newW + x) mod newW = x"
    using assms(4) by simp_all
  have "y * newW + x < Suc y * newW" using assms(4) by simp
  also have "\<dots> \<le> newH * newW" using assms(5) by (intro mult_le_mono1) simp
  finally have "y * newW + x < newW * newH" by (simp add: mult.commute)
  then have j: "j < newW * newH * 4" using assms(6) by (simp add: j_def)
  have "resized_byte img newW newH j = data img ! (src_index ?W ?H newW newH x y + c)"
    using assms(4) by (simp add: resized_byte_def Let_def dv md yx rd to_uint8_def)
  then have "data (resizeNearestNeighbor img newW newH) ! j
      = data img ! (src_index ?W ?H newW newH x y + c)"
    using nth_resizeNearestNeighbor [OF j] by simp
  then show ?thesis using sx sy rd unfolding j_def by simp
qed

text \<open>The theorem at a 2 by 2 buffer resized to 3 by 5.\<close>

theorem source_reads_in_bounds_witness:
  "(0::nat) < 2 \<and> length [0, 1, 2, 3, 4, 5, 6, 7, 8, 9, 10, 11, 12, 13, 14, 15 :: 8 word] = 2 * 2 * 4
   \<and> (2::nat) < 3 \<and> (4::nat) < 5 \<and> (1::nat) < 4
   \<and> src_coord 2 2 3 < 2 \<and> src_coord 4 2 5 < 2
   \<and> array_get [0, 1, 2, 3, 4, 5, 6, 7, 8, 9, 10, 11, 12, 13, 14, 15 :: 8 word]
         (src_index 2 2 3 5 2 4 + 1) = Some 13
   \<and> data (resizeNearestNeighbor
         \<lparr>width = 2, height = 2,
          data = [0, 1, 2, 3, 4, 5, 6, 7, 8, 9, 10, 11, 12, 13, 14, 15]\<rparr> 3 5)
         ! ((4 * 3 + 2) * 4 + 1) = 13"
proof -
  let ?img = "\<lparr>width = 2, height = 2,
               data = [0, 1, 2, 3, 4, 5, 6, 7, 8, 9, 10, 11, 12, 13, 14, 15 :: 8 word]\<rparr>"
  have s: "src_index 2 2 3 5 2 4 = 12" by (simp add: src_index_def src_coord_def)
  from source_reads_in_bounds [of ?img 2 3 4 5 1]
  show ?thesis by (simp add: s)
qed

section \<open>Rounding\<close>

lemma ilog2_bounds: "0 < q \<Longrightarrow> 2 powi ilog2 q \<le> q \<and> q < 2 powi (ilog2 q + 1)"
proof (induction q rule: ilog2.induct)
  case (1 q)
  show ?case
  proof (cases "q < 1")
    case True
    then have e: "ilog2 q = ilog2 (2 * q) - 1" using 1 by (subst ilog2.simps) simp
    have ih: "2 powi ilog2 (2 * q) \<le> 2 * q \<and> 2 * q < 2 powi (ilog2 (2 * q) + 1)"
      using 1 True by simp
    show ?thesis using ih by (simp add: e power_int_diff power_int_add)
  next
    case False
    show ?thesis
    proof (cases "2 \<le> q")
      case True
      then have e: "ilog2 q = ilog2 (q / 2) + 1" using 1 False by (subst ilog2.simps) simp
      have ih: "2 powi ilog2 (q / 2) \<le> q / 2 \<and> q / 2 < 2 powi (ilog2 (q / 2) + 1)"
        using 1 True False by simp
      show ?thesis using ih by (simp add: e power_int_add)
    next
      case F2: False
      then have e: "ilog2 q = 0" using 1 False by (subst ilog2.simps) simp
      show ?thesis using False F2 by (simp add: e)
    qed
  qed
qed

lemma ilog2_less:
  assumes "0 < q" and "q < 2 powi k"
  shows "ilog2 q < k"
proof (rule ccontr)
  assume "\<not> ilog2 q < k"
  then have "(2::rat) powi k \<le> 2 powi ilog2 q" by (intro power_int_increasing) simp_all
  also have "\<dots> \<le> q" using ilog2_bounds [OF assms(1)] by simp
  finally show False using assms(2) by simp
qed

lemma round_even_cases: "round_even z = \<lfloor>z\<rfloor> \<or> round_even z = \<lfloor>z\<rfloor> + 1"
  by (simp add: round_even_def Let_def)

lemma round_even_of_int [simp]: "round_even (of_int n) = n"
  by (simp add: round_even_def)

lemma round_even_ge:
  assumes "of_int n \<le> z"
  shows "n \<le> round_even z"
proof -
  have "n \<le> \<lfloor>z\<rfloor>" using assms by (simp add: le_floor_iff)
  then show ?thesis using round_even_cases [of z] by linarith
qed

lemma round_even_le:
  assumes "z \<le> of_int n"
  shows "round_even z \<le> n"
proof (cases "z = of_int n")
  case True
  then show ?thesis by simp
next
  case False
  then have "z < of_int n" using assms by simp
  then have "\<lfloor>z\<rfloor> < n" by (simp add: floor_less_iff)
  then show ?thesis using round_even_cases [of z] by linarith
qed

lemma round_even_below_half:
  assumes "z < of_int n - 1 / 2"
  shows "round_even z < n"
proof (cases "\<lfloor>z\<rfloor> + 1 < n")
  case True
  then show ?thesis using round_even_cases [of z] by linarith
next
  case False
  have "z < of_int n" using assms by linarith
  then have "\<lfloor>z\<rfloor> < n" by (simp add: floor_less_iff)
  with False have f: "\<lfloor>z\<rfloor> = n - 1" by linarith
  have "z - of_int \<lfloor>z\<rfloor> < 1 / 2" unfolding f using assms by simp
  then have "round_even z = \<lfloor>z\<rfloor>" by (simp add: round_even_def Let_def)
  then show ?thesis using f by simp
qed

lemma fl_round_pos:
  "0 < q \<Longrightarrow> fl_round p q =
     of_int (round_even (q * 2 powi (int p - 1 - ilog2 q))) / 2 powi (int p - 1 - ilog2 q)"
  by (simp add: fl_round_def Let_def)

lemma fl_round_nonneg:
  assumes "0 \<le> q"
  shows "0 \<le> fl_round p q"
proof (cases "q = 0")
  case True
  then show ?thesis by (simp add: fl_round_def)
next
  case False
  then have q: "0 < q" using assms by simp
  have "of_int 0 \<le> q * 2 powi (int p - 1 - ilog2 q)" using q by simp
  then have "0 \<le> round_even (q * 2 powi (int p - 1 - ilog2 q))" by (rule round_even_ge)
  then show ?thesis unfolding fl_round_pos [OF q] by simp
qed

lemma fl_round_le:
  assumes "0 < q" and "q \<le> y" and "y * 2 powi (int p - 1 - ilog2 q) = of_int n"
  shows "fl_round p q \<le> y"
proof -
  let ?P = "(2::rat) powi (int p - 1 - ilog2 q)"
  have P: "0 < ?P" by simp
  have "q * ?P \<le> of_int n" using assms(2,3) P by (metis mult_le_cancel_right_pos)
  then have "round_even (q * ?P) \<le> n" by (rule round_even_le)
  then have "of_int (round_even (q * ?P)) / ?P \<le> of_int n / ?P"
    using P by (simp add: divide_right_mono)
  also have "\<dots> = y" using assms(3) P by (simp add: field_simps)
  finally show ?thesis unfolding fl_round_pos [OF assms(1)] .
qed

lemma fl_round_ge:
  assumes "0 < q" and "y \<le> q" and "y * 2 powi (int p - 1 - ilog2 q) = of_int n"
  shows "y \<le> fl_round p q"
proof -
  let ?P = "(2::rat) powi (int p - 1 - ilog2 q)"
  have P: "0 < ?P" by simp
  have "of_int n \<le> q * ?P" using assms(2,3) P by (metis mult_le_cancel_right_pos)
  then have "n \<le> round_even (q * ?P)" by (rule round_even_ge)
  then have "of_int n / ?P \<le> of_int (round_even (q * ?P)) / ?P"
    using P by (simp add: divide_right_mono)
  moreover have "of_int n / ?P = y" using assms(3) P by (simp add: field_simps)
  ultimately show ?thesis unfolding fl_round_pos [OF assms(1)] by simp
qed

lemma fl_round_less:
  assumes "0 < q" and "y * 2 powi (int p - 1 - ilog2 q) = of_int n"
    and "q * 2 powi (int p - 1 - ilog2 q) < of_int n - 1 / 2"
  shows "fl_round p q < y"
proof -
  let ?P = "(2::rat) powi (int p - 1 - ilog2 q)"
  have P: "0 < ?P" by simp
  have "round_even (q * ?P) < n" using assms(3) by (rule round_even_below_half)
  then have "of_int (round_even (q * ?P)) / ?P < of_int n / ?P"
    using P by (simp add: divide_strict_right_mono)
  also have "\<dots> = y" using assms(2) P by (simp add: field_simps)
  finally show ?thesis unfolding fl_round_pos [OF assms(1)] .
qed

lemma power_int_nonneg_is_int:
  assumes "0 \<le> s"
  shows "(2::rat) powi s = of_int (2 ^ nat s)"
  using assms by (simp add: power_int_nonneg_exp)

lemma fl_round_unit:
  assumes "0 \<le> q" and "q \<le> 1" and "0 < p"
  shows "0 \<le> fl_round p q \<and> fl_round p q \<le> 1"
proof (cases "q = 0")
  case True
  then show ?thesis by (simp add: fl_round_def)
next
  case False
  then have q: "0 < q" using assms(1) by simp
  have "q < 2 powi 1" using assms(2) by simp
  then have "ilog2 q < 1" using q by (intro ilog2_less)
  then have s: "0 \<le> int p - 1 - ilog2 q" using assms(3) by simp
  have "1 * (2::rat) powi (int p - 1 - ilog2 q) = of_int (2 ^ nat (int p - 1 - ilog2 q))"
    using power_int_nonneg_is_int [OF s] by simp
  from fl_round_le [OF q assms(2) this] fl_round_nonneg [OF assms(1)]
  show ?thesis by simp
qed

text \<open>
  Integers below \<open>2 ^ 53\<close> are doubles, and the floor of the rounded quotient of two of
  them is their integer quotient: what \<open>Math.floor(d * oldDim / newDim)\<close> computes is
  \<open>src_coord\<close>.
\<close>

lemma of_nat_less_2_53:
  assumes "n < 2 ^ 53"
  shows "(of_nat n :: rat) < 2 ^ 53"
proof -
  have "(of_nat n :: rat) < of_nat (2 ^ 53)" using assms by (simp only: of_nat_less_iff)
  then show ?thesis by simp
qed

lemma fl64_of_nat:
  assumes "n < 2 ^ 53"
  shows "fl64 (of_nat n) = of_nat n"
proof (cases "n = 0")
  case True
  then show ?thesis by (simp add: fl64_def fl_round_def)
next
  case False
  define x :: rat where "x = of_nat n"
  have x: "0 < x" using False by (simp add: x_def)
  have "x < 2 ^ 53" unfolding x_def using assms by (rule of_nat_less_2_53)
  then have "x < 2 powi 53" by simp
  then have "ilog2 x < 53" using x by (intro ilog2_less)
  then have s: "0 \<le> 52 - ilog2 x" by simp
  have yN: "x * (2::rat) powi (int 53 - 1 - ilog2 x) = of_int (int n * 2 ^ nat (52 - ilog2 x))"
    using power_int_nonneg_is_int [OF s] by (simp add: x_def)
  have "fl_round 53 x \<le> x" using x order_refl yN by (rule fl_round_le)
  moreover have "x \<le> fl_round 53 x" using x order_refl yN by (rule fl_round_ge)
  ultimately show ?thesis by (simp add: fl64_def x_def)
qed

lemma floor_fl64_divide:
  assumes "a < 2 ^ 53" and "0 < b"
  shows "\<lfloor>fl64 (of_nat a / of_nat b)\<rfloor> = int (a div b)"
proof (cases "a = 0")
  case True
  then show ?thesis by (simp add: fl64_def fl_round_def)
next
  case False
  define q :: rat where "q = of_nat a / of_nat b"
  define k where "k = a div b"
  define e where "e = ilog2 q"
  define A where "A = (2::rat) powi e"
  have bpos: "(0::rat) < of_nat b" using assms(2) by simp
  have q: "0 < q" using False bpos by (simp add: q_def)
  have b1: "(1::rat) \<le> of_nat b" using assms(2) by simp
  have "q \<le> of_nat a" 
  proof -
    have "of_nat a / of_nat b \<le> (of_nat a :: rat) / 1" using b1 by (intro divide_left_mono) simp_all
    then show ?thesis by (simp add: q_def)
  qed
  moreover have "(of_nat a :: rat) < 2 ^ 53" using assms(1) by (rule of_nat_less_2_53)
  ultimately have "q < 2 ^ 53" by linarith
  then have "q < 2 powi 53" by simp
  then have "e < 53" unfolding e_def using q by (intro ilog2_less)
  then have s: "0 \<le> 52 - e" by simp
  have A: "0 < A" "A \<le> q" using ilog2_bounds [OF q] by (simp_all add: A_def e_def)
  have P: "(2::rat) powi (52 - e) = 2 ^ 52 / A" by (simp add: A_def power_int_diff)
  have Pint: "(2::rat) powi (52 - e) = of_int (2 ^ nat (52 - e))"
    using s by (rule power_int_nonneg_is_int)
  \<comment> \<open>the quotient lies between \<open>k\<close> and \<open>k + 1 - 1 / b\<close>\<close>
  have "k * b \<le> a" by (simp add: k_def)
  then have "(of_nat (k * b) :: rat) \<le> of_nat a" by (simp only: of_nat_le_iff)
  then have lo: "of_nat k \<le> q" using bpos by (simp add: q_def field_simps)
  have "a < Suc k * b" unfolding k_def using assms(2) by (metis dividend_less_div_times mult.commute mult_Suc)
  then have "a + 1 \<le> Suc k * b" by simp
  then have "(of_nat (a + 1) :: rat) \<le> of_nat (Suc k * b)" by (simp only: of_nat_le_iff)
  then have hi: "q \<le> of_nat (Suc k) - 1 / of_nat b" using bpos by (simp add: q_def field_simps)
  \<comment> \<open>lower bound\<close>
  have yk: "of_nat k * (2::rat) powi (int 53 - 1 - ilog2 q) = of_int (int k * 2 ^ nat (52 - e))"
    using Pint by (simp add: e_def)
  have ge: "of_nat k \<le> fl_round 53 q" using q lo yk by (rule fl_round_ge)
  \<comment> \<open>upper bound\<close>
  have yk1: "of_nat (Suc k) * (2::rat) powi (int 53 - 1 - ilog2 q)
      = of_int (int (Suc k) * 2 ^ nat (52 - e))"
    using Pint by (simp add: e_def)
  define C where "C = 2 ^ 52 / A"
  have C: "0 < C" using A(1) by (simp add: C_def)
  have Ab: "A * of_nat b \<le> of_nat a"
    using A(2) bpos by (simp add: q_def field_simps)
  have "A * of_nat b < 2 ^ 53" using Ab of_nat_less_2_53 [OF assms(1)] by linarith
  then have "of_nat b < 2 ^ 53 / A" using A(1) by (simp add: field_simps)
  then have "of_nat b < 2 * C" by (simp add: C_def)
  then have "1 / 2 * of_nat b < C" by linarith
  then have pb: "1 / 2 < C / of_nat b" by (simp only: pos_less_divide_eq [OF bpos])
  have "q * C \<le> (of_nat (Suc k) - 1 / of_nat b) * C"
    using hi C by (intro mult_right_mono) simp_all
  also have "\<dots> = of_nat (Suc k) * C - 1 / of_nat b * C" by (rule left_diff_distrib)
  also have "\<dots> = of_nat (Suc k) * C - C / of_nat b" by simp
  also have "\<dots> < of_nat (Suc k) * C - 1 / 2" using pb by linarith
  finally have "q * (2::rat) powi (52 - e) < of_nat (Suc k) * 2 powi (52 - e) - 1 / 2"
    unfolding P C_def .
  then have half: "q * (2::rat) powi (int 53 - 1 - ilog2 q)
      < of_int (int (Suc k) * 2 ^ nat (52 - e)) - 1 / 2"
    unfolding yk1 [symmetric] by (simp add: e_def)
  have lt: "fl_round 53 q < of_nat (Suc k)" using q yk1 half by (rule fl_round_less)
  have "\<lfloor>fl_round 53 q\<rfloor> = int k"
    using ge lt by (intro floor_unique) simp_all
  then show ?thesis by (simp add: fl64_def q_def k_def)
qed

lemma src_coord_double:
  assumes "d * oldDim < 2 ^ 53" and "0 < newDim"
  shows "Math_floor (fl64 (fl64 (of_nat d * of_nat oldDim) / of_nat newDim))
           = int (src_coord d oldDim newDim)"
proof -
  have "fl64 (of_nat d * of_nat oldDim) = of_nat (d * oldDim)"
    using fl64_of_nat [OF assms(1)] by simp
  then show ?thesis
    using floor_fl64_divide [OF assms] by (simp add: Math_floor_def src_coord_def)
qed

section \<open>The tensor\<close>

text \<open>
  With a well-formed source of positive dimensions, the byte of the resized buffer for
  channel \<open>c\<close> of destination pixel \<open>(x, y)\<close> is the source byte at \<open>srcIdx + c\<close>.
\<close>

lemma nth_resize_source:
  assumes "0 < width img" and "0 < height img"
    and "length (data img) = width img * height img * 4"
    and "x < newW" and "y < newH" and "c < 4"
  shows "data (resizeNearestNeighbor img newW newH) ! ((y * newW + x) * 4 + c)
           = data img ! (src_index (width img) (height img) newW newH x y + c)"
proof -
  let ?W = "width img" and ?H = "height img"
  define j where "j = (y * newW + x) * 4 + c"
  have "src_index ?W ?H newW newH x y + c < length (data img)"
    using assms by (simp add: src_index_in_bounds)
  then have rd: "array_get (data img) (src_index ?W ?H newW newH x y + c)
      = Some (data img ! (src_index ?W ?H newW newH x y + c))"
    by (simp add: array_get_def)
  have dv: "j div 4 = y * newW + x" and md: "j mod 4 = c"
    using div4_unique [of "y * newW + x" j] assms(6) by (simp_all add: j_def)
  have yx: "(y * newW + x) div newW = y" "(y * newW + x) mod newW = x"
    using assms(4) by simp_all
  have "y * newW + x < Suc y * newW" using assms(4) by simp
  also have "\<dots> \<le> newH * newW" using assms(5) by (intro mult_le_mono1) simp
  finally have "y * newW + x < newW * newH" by (simp add: mult.commute)
  then have j: "j < newW * newH * 4" using assms(6) by (simp add: j_def)
  have "resized_byte img newW newH j = data img ! (src_index ?W ?H newW newH x y + c)"
    using assms(4) by (simp add: resized_byte_def Let_def dv md yx rd to_uint8_def)
  then show ?thesis
    using nth_resizeNearestNeighbor [OF j] unfolding j_def by simp
qed

lemma pixel_index_less:
  fixes x y W H :: nat
  assumes "x < W" and "y < H"
  shows "y * W + x < W * H"
proof -
  have "y * W + x < Suc y * W" using assms(1) by simp
  also have "\<dots> \<le> H * W" using assms(2) by (intro mult_le_mono1) simp
  finally show ?thesis by (simp add: mult.commute)
qed

lemma div3_unique:
  fixes a j :: nat
  assumes "a * 3 \<le> j" and "j < a * 3 + 3"
  shows "j div 3 = a" and "j mod 3 = j - a * 3"
  using assms by presburger+

lemma length_tensor_pixel [simp]: "length (tensor_pixel rgba i t) = length t"
  by (simp add: tensor_pixel_def)

lemma nth_tensor_pixel:
  assumes "j < length t"
  shows "tensor_pixel rgba i t ! j =
           (if i * 3 \<le> j \<and> j < i * 3 + 3 then normalise (array_get rgba (i * 4 + (j - i * 3)))
            else t ! j)"
proof -
  consider "j < i * 3" | "j = i * 3" | "j = i * 3 + 1" | "j = i * 3 + 2" | "i * 3 + 3 \<le> j"
    by linarith
  then show ?thesis
    using assms by cases (simp_all add: tensor_pixel_def nth_list_update)
qed

lemma length_fold_tensor_pixel [simp]:
  "length (fold (tensor_pixel rgba) is t) = length t"
  by (induction "is" arbitrary: t) simp_all

lemma nth_fold_tensor_pixel:
  assumes "j < length t"
  shows "fold (tensor_pixel rgba) [0..<n] t ! j =
           (if j < n * 3 then normalise (array_get rgba (j div 3 * 4 + j mod 3)) else t ! j)"
proof (induction n)
  case 0
  show ?case by simp
next
  case (Suc n)
  let ?t = "fold (tensor_pixel rgba) [0..<n] t"
  have len: "j < length ?t" using assms by simp
  have step: "fold (tensor_pixel rgba) [0..<Suc n] t ! j = tensor_pixel rgba n ?t ! j"
    by simp
  show ?case
  proof (cases "n * 3 \<le> j \<and> j < n * 3 + 3")
    case True
    then have dv: "j div 3 = n" and md: "j mod 3 = j - n * 3"
      using div3_unique [of n j] by simp_all
    show ?thesis
      unfolding step nth_tensor_pixel [OF len] using True by (simp add: dv md)
  next
    case False
    then have "fold (tensor_pixel rgba) [0..<Suc n] t ! j = ?t ! j"
      unfolding step nth_tensor_pixel [OF len] by (simp only: if_not_P [OF False] if_False)
    also have "\<dots> = (if j < n * 3 then normalise (array_get rgba (j div 3 * 4 + j mod 3))
                     else t ! j)" by (rule Suc.IH)
    also have "\<dots> = (if j < Suc n * 3 then normalise (array_get rgba (j div 3 * 4 + j mod 3))
                     else t ! j)"
      using False by auto
    finally show ?thesis .
  qed
qed

lemma normalise_unit:
  "\<exists>q. normalise (Some b) = Fin q \<and> 0 \<le> q \<and> q \<le> 1"
proof -
  let ?x = "of_nat (unat b) / 255 :: rat"
  have "unat b < 2 ^ 8" using unsigned_less [of b, where ?'a = nat] by simp
  then have "unat b \<le> 255" by simp
  then have le: "(of_nat (unat b) :: rat) \<le> 255" by (metis of_nat_le_iff of_nat_numeral)
  have "(0::rat) \<le> of_nat (unat b)" by (rule of_nat_0_le_iff)
  then have x0: "0 \<le> ?x" by (rule divide_nonneg_nonneg) simp
  have "?x \<le> 255 / 255" using le by (rule divide_right_mono) simp
  also have "(255::rat) / 255 = 1" by simp
  finally have x1: "?x \<le> 1" .
  note x = x0 x1
  have d: "0 \<le> fl64 ?x \<and> fl64 ?x \<le> 1"
    unfolding fl64_def using x by (intro fl_round_unit) simp_all
  then have "0 \<le> fl32 (fl64 ?x) \<and> fl32 (fl64 ?x) \<le> 1"
    unfolding fl32_def by (intro fl_round_unit) simp_all
  then show ?thesis by (simp add: normalise_def)
qed

text \<open>
  Claim C3. When the decoder accepts the input as a JPEG image, \<open>base64ToTensor\<close>
  returns a tensor of length \<open>targetW * targetH * 3\<close> for all target dimensions, every
  element of it is a number in the closed interval from 0 to 1, and the element for channel
  \<open>c < 3\<close> of pixel \<open>i\<close> is byte \<open>i * 4 + c\<close> of the resized image divided by 255
  (rounded to a double, then to single precision); the alpha byte \<open>i * 4 + 3\<close> is not used.
  When the decoded image is well formed with positive dimensions, as that of a valid JPEG
  image is, the element for channel \<open>c\<close> of destination pixel \<open>(x, y)\<close> is the byte of
  the source image at the nearest-neighbour index \<open>srcIdx + c\<close>, divided by 255.
\<close>

theorem base64ToTensor_shape:
  assumes "jpeg_decode (Buffer_from (strip_data_uri base64)) = Inr raw"
  shows "\<exists>tensor. base64ToTensor Buffer_from jpeg_decode base64 targetW targetH = Inr tensor
           \<and> length tensor = targetW * targetH * 3
           \<and> (\<forall>v \<in> set tensor. \<exists>q. v = Fin q \<and> 0 \<le> q \<and> q \<le> 1)
           \<and> (\<forall>i<targetW * targetH. \<forall>c<3.
                 tensor ! (i * 3 + c) =
                   Fin (fl32 (fl64 (of_nat (unat (data (resizeNearestNeighbor raw targetW targetH)
                                                    ! (i * 4 + c))) / 255))))
           \<and> (0 < width raw \<and> 0 < height raw
                \<and> length (data raw) = width raw * height raw * 4 \<longrightarrow>
               (\<forall>x<targetW. \<forall>y<targetH. \<forall>c<3.
                  tensor ! ((y * targetW + x) * 3 + c) =
                    Fin (fl32 (fl64 (of_nat (unat (data raw
                           ! (src_index (width raw) (height raw) targetW targetH x y + c)))
                         / 255)))))"
proof -
  let ?rgba = "data (resizeNearestNeighbor raw targetW targetH)"
  let ?n = "targetW * targetH"
  let ?t = "fold (tensor_pixel ?rgba) [0..<?n] (replicate (?n * 3) (Fin 0))"
  have r: "base64ToTensor Buffer_from jpeg_decode base64 targetW targetH = Inr ?t"
    using assms by (simp add: base64ToTensor_def Let_def)
  have len: "length ?t = ?n * 3" by simp
  have rg: "length ?rgba = ?n * 4" by (simp add: length_resizeNearestNeighbor)
  have el: "?t ! j = normalise (Some (?rgba ! (j div 3 * 4 + j mod 3)))" if j: "j < ?n * 3" for j
  proof -
    have "j div 3 < ?n" using j by presburger
    moreover have "j mod 3 < 3" by simp
    ultimately have "j div 3 * 4 + j mod 3 < ?n * 4" by linarith
    then have "array_get ?rgba (j div 3 * 4 + j mod 3) = Some (?rgba ! (j div 3 * 4 + j mod 3))"
      using rg by (simp add: array_get_def)
    moreover have "j < length (replicate (?n * 3) (Fin 0))" using j by simp
    ultimately show ?thesis using j by (simp add: nth_fold_tensor_pixel)
  qed
  have unit: "\<exists>q. v = Fin q \<and> 0 \<le> q \<and> q \<le> 1" if "v \<in> set ?t" for v
  proof -
    from that obtain j where j: "j < length ?t" "v = ?t ! j" by (metis in_set_conv_nth)
    then have "j < ?n * 3" by simp
    from el [OF this] normalise_unit show ?thesis unfolding j(2) by metis
  qed
  have px: "?t ! (i * 3 + c) = Fin (fl32 (fl64 (of_nat (unat (?rgba ! (i * 4 + c))) / 255)))"
    if "i < ?n" "c < 3" for i c
  proof -
    have j: "i * 3 + c < ?n * 3" using that by linarith
    have "(i * 3 + c) div 3 = i" "(i * 3 + c) mod 3 = c" using that(2) by simp_all
    with el [OF j] show ?thesis by (simp add: normalise_def)
  qed
  have src: "?t ! ((y * targetW + x) * 3 + c) =
      Fin (fl32 (fl64 (of_nat (unat (data raw
             ! (src_index (width raw) (height raw) targetW targetH x y + c))) / 255)))"
    if wf: "0 < width raw" "0 < height raw" "length (data raw) = width raw * height raw * 4"
      and xy: "x < targetW" "y < targetH" "c < 3" for x y c
  proof -
    have i: "y * targetW + x < ?n" using xy(1,2) by (rule pixel_index_less)
    have c4: "c < 4" using xy(3) by simp
    have "?rgba ! ((y * targetW + x) * 4 + c)
        = data raw ! (src_index (width raw) (height raw) targetW targetH x y + c)"
      using wf xy(1,2) c4 by (rule nth_resize_source)
    then show ?thesis using px [OF i xy(3)] by (simp only:)
  qed
  show ?thesis using r len unit px src by blast
qed

lemma strip_example: "strip_data_uri ''data:image/jpeg;base64,/9g='' = ''/9g=''"
  by (simp add: strip_data_uri_def match_literal_def is_word_char_def)

lemma normalise_255: "fl32 (fl64 (of_nat (unat (255 :: 8 word)) / 255)) = 1"
  by code_simp

lemma normalise_51: "fl32 (fl64 (of_nat (unat (51 :: 8 word)) / 255)) = 13421773 / 67108864"
  by code_simp

text \<open>
  The theorem at a data URI whose image has one pixel, resized to two pixels: the second
  pixel of the tensor holds the source's red byte 255 as 1 and its blue byte 51 as the
  single-precision number nearest to 0.2.
\<close>

theorem base64ToTensor_shape_witness:
  "example_jpeg_decode (example_Buffer_from (strip_data_uri ''data:image/jpeg;base64,/9g=''))
     = Inr example_image
   \<and> 0 < width example_image \<and> 0 < height example_image
   \<and> length (data example_image) = width example_image * height example_image * 4
   \<and> (\<exists>tensor. base64ToTensor example_Buffer_from example_jpeg_decode
          ''data:image/jpeg;base64,/9g='' 2 1 = Inr tensor
        \<and> length tensor = 6
        \<and> tensor ! 3 = Fin 1
        \<and> tensor ! 5 = Fin (13421773 / 67108864))"
proof -
  have h: "example_jpeg_decode (example_Buffer_from (strip_data_uri ''data:image/jpeg;base64,/9g=''))
     = Inr example_image"
    by (simp add: strip_example example_Buffer_from_def example_jpeg_decode_def)
  have wf: "0 < width example_image \<and> 0 < height example_image
      \<and> length (data example_image) = width example_image * height example_image * 4"
    by (simp add: example_image_def)
  have s: "src_index (Suc 0) (Suc 0) 2 (Suc 0) (Suc 0) 0 = 0"
    by (simp add: src_index_def src_coord_def)
  from base64ToTensor_shape [of example_jpeg_decode example_Buffer_from
      "''data:image/jpeg;base64,/9g=''" example_image 2 1, OF h]
  obtain tensor where t: "base64ToTensor example_Buffer_from example_jpeg_decode
          ''data:image/jpeg;base64,/9g='' 2 1 = Inr tensor"
    "length tensor = 2 * 1 * 3"
    "\<forall>x<2. \<forall>y<1. \<forall>c<3.
        tensor ! ((y * 2 + x) * 3 + c) =
          Fin (fl32 (fl64 (of_nat (unat (data example_image
                 ! (src_index (width example_image) (height example_image) 2 1 x y + c)))
               / 255)))"
    using wf by blast
  have l12: "(1::nat) < 2" and l01: "(0::nat) < 1" and l03: "(0::nat) < 3" and l23: "(2::nat) < 3"
    by simp_all
  have "tensor ! ((0 * 2 + 1) * 3 + 0) =
      Fin (fl32 (fl64 (of_nat (unat (data example_image
         ! (src_index (width example_image) (height example_image) 2 1 1 0 + 0))) / 255)))"
    using l12 l01 l03 by (rule t(3) [rule_format])
  then have a: "tensor ! 3 = Fin 1"
    using normalise_255 by (simp add: example_image_def s)
  have "tensor ! ((0 * 2 + 1) * 3 + 2) =
      Fin (fl32 (fl64 (of_nat (unat (data example_image
         ! (src_index (width example_image) (height example_image) 2 1 1 0 + 2))) / 255)))"
    using l12 l01 l23 by (rule t(3) [rule_format])
  then have b: "tensor ! 5 = Fin (13421773 / 67108864)"
    using normalise_51 by (simp add: example_image_def s)
  show ?thesis using h wf t(1,2) a b by simp
qed

section \<open>The plate text\<close>

lemma fl64_scaled_unit:
  assumes "0 \<le> r" and "r \<le> 1 - 1 / 2 ^ 53" and "0 < M" and "M \<le> 2 ^ 53"
  shows "0 \<le> fl64 (r * of_nat M) \<and> fl64 (r * of_nat M) < of_nat M"
proof (cases "r = 0")
  case True
  then show ?thesis using assms(3) by (simp add: fl64_def fl_round_def)
next
  case False
  define x where "x = r * of_nat M"
  define e where "e = ilog2 x"
  define A where "A = (2::rat) powi e"
  have Mpos: "(0::rat) < of_nat M" using assms(3) by simp
  have x: "0 < x" using False assms(1) Mpos by (simp add: x_def)
  have xle: "x \<le> of_nat M - of_nat M / 2 ^ 53"
  proof -
    have "x \<le> (1 - 1 / 2 ^ 53) * of_nat M"
      unfolding x_def using assms(2) Mpos by (intro mult_right_mono) simp_all
    then show ?thesis by (simp add: algebra_simps)
  qed
  have "0 < of_nat M / (2 ^ 53 :: rat)" using Mpos by simp
  then have xM: "x < of_nat M" using xle by linarith
  have "(of_nat M :: rat) \<le> of_nat (2 ^ 53)" using assms(4) by (simp only: of_nat_le_iff)
  then have "(of_nat M :: rat) \<le> 2 ^ 53" by simp
  then have "x < 2 ^ 53" using xM by linarith
  then have "x < 2 powi 53" by simp
  then have e53: "e < 53" unfolding e_def using x by (intro ilog2_less)
  have A: "0 < A" "A \<le> x" using ilog2_bounds [OF x] by (simp_all add: A_def e_def)
  have AM: "A < of_nat M" using A(2) xM by simp
  have P: "(2::rat) powi (52 - e) = 2 ^ 52 / A"
    by (simp add: A_def power_int_diff)
  have s: "0 \<le> 52 - e" using e53 by simp
  have yN: "of_nat M * (2::rat) powi (int 53 - 1 - ilog2 x) = of_int (int M * 2 ^ nat (52 - e))"
    using power_int_nonneg_is_int [OF s] by (simp add: e_def)
  have "x * (2 ^ 52 / A) \<le> (of_nat M - of_nat M / 2 ^ 53) * (2 ^ 52 / A)"
    using xle A(1) by (intro mult_right_mono) simp_all
  also have "\<dots> = of_nat M * (2 ^ 52 / A) - of_nat M / (2 * A)"
    using A(1) by (simp add: field_simps)
  also have "\<dots> < of_nat M * (2 ^ 52 / A) - 1 / 2"
  proof -
    have "1 < of_nat M / A" using AM A(1) by simp
    then have "1 / 2 < of_nat M / (2 * A)" by simp
    then show ?thesis by simp
  qed
  finally have "x * (2::rat) powi (52 - e) < of_nat M * 2 powi (52 - e) - 1 / 2"
    unfolding P .
  then have half: "x * (2::rat) powi (int 53 - 1 - ilog2 x)
      < of_int (int M * 2 ^ nat (52 - e)) - 1 / 2"
    unfolding yN [symmetric] by (simp add: e_def)
  have "fl_round 53 x < of_nat M" using x yN half by (rule fl_round_less)
  moreover have "0 \<le> fl_round 53 x" using x by (intro fl_round_nonneg) simp
  ultimately show ?thesis by (simp add: fl64_def x_def)
qed

lemma floor_scaled_unit:
  assumes "unit_double r" and "0 < M" and "M \<le> 2 ^ 53"
  shows "0 \<le> Math_floor (fl64 (r * of_nat M)) \<and> Math_floor (fl64 (r * of_nat M)) \<le> int M - 1"
proof -
  from assms have b: "0 \<le> fl64 (r * of_nat M) \<and> fl64 (r * of_nat M) < of_nat M"
    by (intro fl64_scaled_unit) (simp_all add: unit_double_def)
  then have "\<lfloor>fl64 (r * of_nat M)\<rfloor> < int M" by (simp add: floor_less_iff)
  moreover have "0 \<le> \<lfloor>fl64 (r * of_nat M)\<rfloor>" using b by simp
  ultimately show ?thesis by (simp add: Math_floor_def)
qed

lemma random_text_well_formed:
  assumes "unit_double (rs k)" and "unit_double (rs (Suc k))"
  shows "well_formed_text (fst (random_text rs k))"
proof -
  have a: "0 \<le> Math_floor (fl64 (rs k * 100)) \<and> Math_floor (fl64 (rs k * 100)) \<le> 99"
    using floor_scaled_unit [OF assms(1), of 100] by simp
  have b: "0 \<le> Math_floor (fl64 (rs (Suc k) * 10000))
         \<and> Math_floor (fl64 (rs (Suc k) * 10000)) \<le> 9999"
    using floor_scaled_unit [OF assms(2), of 10000] by simp
  have "fst (random_text rs k) =
      ''KA'' @ Number_toString (Math_floor (fl64 (rs k * 100))) @ ''AB''
        @ Number_toString (Math_floor (fl64 (rs (Suc k) * 10000)))"
    by (simp add: random_text_def Math_random_def Let_def)
  then show ?thesis unfolding well_formed_text_def using a b by blast
qed

lemma random_texts_well_formed:
  assumes "\<forall>j. unit_double (rs j)"
  shows "\<forall>t \<in> set (random_texts rs k m). well_formed_text t"
  using assms by (induction m arbitrary: k) (simp_all add: random_text_well_formed)

lemma processOutput_texts:
  "\<exists>ps k'. processOutput output rs k = Some (ps, k')
     \<and> length ps = length (filter id (detection_pattern output))
     \<and> map plate_text ps = random_texts rs k (length ps)"
proof -
  let ?js = "[0..<loop_count (numDetections_of output)]"
  let ?r = "fold (processOutput_body output rs) ?js ([], k)"
  have r: "processOutput output rs k = Some (fst ?r, snd ?r)"
    by (simp add: processOutput_unroll)
  have len: "length (fst ?r) = length (filter id (detection_pattern output))"
    by (simp add: fold_body_length detection_pattern_def filter_map comp_def)
  have "map plate_text (fst ?r) = random_texts rs k (length (filter (above_threshold output) ?js))"
    by (simp add: fold_body_texts)
  also have "length (filter (above_threshold output) ?js) = length (fst ?r)"
    by (simp add: fold_body_length)
  finally show ?thesis using r len by blast
qed

text \<open>
  Claim C9. The text fields of the records that \<open>processOutput\<close> returns are
  determined by the random source alone: they are the texts the generator yields for
  that many records (\<open>random_texts\<close> depends on the random sequence, the cursor and the
  number of records only), so two output arrays with the same pattern of
  above-threshold detections get the same texts from the same random stream, whatever
  numbers the arrays hold. Each text has the form \<open>KA\<close> n \<open>AB\<close> m with
  \<open>0 \<le> n \<le> 99\<close> and \<open>0 \<le> m \<le> 9999\<close>.
\<close>

theorem plate_text_from_random_source_only:
  assumes "detection_pattern a = detection_pattern b" and "\<forall>j. unit_double (rs j)"
  shows "\<exists>pa pb ka kb. processOutput a rs k = Some (pa, ka) \<and> processOutput b rs k = Some (pb, kb)
           \<and> map plate_text pa = map plate_text pb
           \<and> map plate_text pa = random_texts rs k (length pa)
           \<and> (\<forall>t \<in> set (map plate_text pa). well_formed_text t)"
proof -
  from processOutput_texts [of a rs k] obtain pa ka where
    a: "processOutput a rs k = Some (pa, ka)"
       "length pa = length (filter id (detection_pattern a))"
       "map plate_text pa = random_texts rs k (length pa)" by blast
  from processOutput_texts [of b rs k] obtain pb kb where
    b: "processOutput b rs k = Some (pb, kb)"
       "length pb = length (filter id (detection_pattern b))"
       "map plate_text pb = random_texts rs k (length pb)" by blast
  have "length pa = length pb" using a(2) b(2) assms(1) by simp
  then have eq: "map plate_text pa = map plate_text pb" using a(3) b(3) by simp
  have wf: "\<forall>t \<in> set (map plate_text pa). well_formed_text t"
    unfolding a(3) using assms(2) by (rule random_texts_well_formed)
  from a(1) b(1) eq a(3) wf show ?thesis by blast
qed

text \<open>The theorem at two arrays with one detection above the threshold each.\<close>

theorem plate_text_from_random_source_only_witness:
  "detection_pattern [Fin 1, Fin 0, Fin 0, Fin 0, Fin 0, Fin (9 / 10), Fin 0]
     = detection_pattern [Fin 1, Fin 5, Fin 5, Fin 5, Fin 5, Fin (3 / 4), Fin 0]
   \<and> (\<forall>j::nat. unit_double (1 / 2))
   \<and> (\<exists>pa pb ka kb.
         processOutput [Fin 1, Fin 0, Fin 0, Fin 0, Fin 0, Fin (9 / 10), Fin 0] (\<lambda>j. 1 / 2) 0
           = Some (pa, ka)
       \<and> processOutput [Fin 1, Fin 5, Fin 5, Fin 5, Fin 5, Fin (3 / 4), Fin 0] (\<lambda>j. 1 / 2) 0
           = Some (pb, kb)
       \<and> map plate_text pa = map plate_text pb
       \<and> map plate_text pa = random_texts (\<lambda>j. 1 / 2) 0 (length pa))"
proof -
  let ?a = "[Fin 1, Fin 0, Fin 0, Fin 0, Fin 0, Fin (9 / 10), Fin 0]"
  let ?b = "[Fin 1, Fin 5, Fin 5, Fin 5, Fin 5, Fin (3 / 4), Fin 0]"
  have n: "loop_count (Math_min (Fin 1) (Fin 10)) = 1"
    by (simp add: Math_min_def loop_count_def)
  have h1: "detection_pattern ?a = detection_pattern ?b"
    by (simp add: detection_pattern_def numDetections_of_def array_get_def n
        above_threshold_def js_gt_def CONFIDENCE_THRESHOLD_def)
  have h2: "\<forall>j. unit_double ((\<lambda>j::nat. 1 / 2) j)" by (simp add: unit_double_def)
  from plate_text_from_random_source_only [OF h1 h2, of 0]
  show ?thesis using h1 h2 by simp blast
qed

text \<open>A text, computed: \<open>0.99609375 * 100\<close> has floor 99 and \<open>0.25 * 10000\<close> is 2500.\<close>

lemma random_text_example:
  "random_text (\<lambda>j. if j = 0 then 255 / 256 else 1 / 4) 0 = (''KA99AB2500'', 2)"
  by code_simp

end
